theory Spec2Isabelle
  imports Complex_Main
begin

section \<open>Strings and characters\<close>

text \<open>
  A Python \<open>str\<close> is a sequence of code points. The model uses \<open>string\<close>, whose
  characters carry the code points U+0000 to U+00FF (\<open>of_char c\<close> is the code point), so every
  character class below is the class Python 3 uses on that range: \<open>\d\<close> is \<open>0-9\<close> there,
  while \<open>\w\<close> (a \<open>str\<close> pattern is matched with Unicode classes) also holds for the letters
  and numeric characters of the upper half.
\<close>

definition is_digit :: "char \<Rightarrow> bool" where
  "is_digit c = (48 \<le> (of_char c :: nat) \<and> (of_char c :: nat) \<le> 57)"

definition is_ascii_upper :: "char \<Rightarrow> bool" where
  "is_ascii_upper c = (65 \<le> (of_char c :: nat) \<and> (of_char c :: nat) \<le> 90)"

definition is_ascii_lower :: "char \<Rightarrow> bool" where
  "is_ascii_lower c = (97 \<le> (of_char c :: nat) \<and> (of_char c :: nat) \<le> 122)"

definition in_name_set :: "char \<Rightarrow> bool" where
  \<comment> \<open>the ASCII set \<open>[A-Za-z0-9_-]\<close>\<close>
  "in_name_set c = (is_ascii_upper c \<or> is_ascii_lower c \<or> is_digit c
                    \<or> c = CHR ''_'' \<or> c = CHR ''-'')"

definition is_upper_half_alnum :: "char \<Rightarrow> bool" where
  \<comment> \<open>\<open>str.isalnum\<close> on U+0080..U+00FF: the letters U+00AA, U+00B5, U+00BA, U+00C0..U+00FF
      without the two operators U+00D7 and U+00F7, and the numeric characters U+00B2, U+00B3,
      U+00B9, U+00BC..U+00BE\<close>
  "is_upper_half_alnum c =
     (let n = (of_char c :: nat) in
        n = 170 \<or> n = 178 \<or> n = 179 \<or> n = 181 \<or> n = 185 \<or> n = 186
        \<or> (188 \<le> n \<and> n \<le> 190)
        \<or> (192 \<le> n \<and> n \<le> 255 \<and> n \<noteq> 215 \<and> n \<noteq> 247))"

definition is_word :: "char \<Rightarrow> bool" where
  \<comment> \<open>the class \<open>\w\<close> of \<open>re\<close> on a \<open>str\<close> pattern: alphanumeric or underscore\<close>
  "is_word c = (is_ascii_upper c \<or> is_ascii_lower c \<or> is_digit c \<or> c = CHR ''_''
                \<or> is_upper_half_alnum c)"

fun lower_char :: "char \<Rightarrow> char" where
  \<comment> \<open>\<open>str.lower\<close> on one character: \<open>A-Z\<close> and the capital letters U+00C0..U+00DE
      (U+00D7 is the multiplication sign) move up by 32, which sets bit 5\<close>
  "lower_char (Char b0 b1 b2 b3 b4 b5 b6 b7) =
     (let n = (of_char (Char b0 b1 b2 b3 b4 b5 b6 b7) :: nat) in
        if (65 \<le> n \<and> n \<le> 90) \<or> (192 \<le> n \<and> n \<le> 222 \<and> n \<noteq> 215)
        then Char b0 b1 b2 b3 b4 True b6 b7 else Char b0 b1 b2 b3 b4 b5 b6 b7)"

definition lower :: "string \<Rightarrow> string" where
  "lower s = map lower_char s"

fun startswith :: "string \<Rightarrow> string \<Rightarrow> bool" where
  "startswith s [] = True"
| "startswith [] (p # ps) = False"
| "startswith (c # cs) (p # ps) = (c = p \<and> startswith cs ps)"

fun contains :: "string \<Rightarrow> string \<Rightarrow> bool" where
  \<comment> \<open>\<open>sub in s\<close>\<close>
  "contains [] sub = (sub = [])"
| "contains (c # cs) sub = (startswith (c # cs) sub \<or> contains cs sub)"

fun re_search :: "(string \<Rightarrow> 'a option) \<Rightarrow> string \<Rightarrow> 'a option" where
  \<comment> \<open>\<open>re.search\<close>: the match at the leftmost position where the pattern matches;
      the first argument matches the pattern at the start of a string\<close>
  "re_search m [] = m []"
| "re_search m (c # cs) = (case m (c # cs) of Some g \<Rightarrow> Some g | None \<Rightarrow> re_search m cs)"

definition digits_at :: "nat \<Rightarrow> string \<Rightarrow> bool" where
  \<comment> \<open>\<open>\d{n}\<close> matches at the start of the string\<close>
  "digits_at n s = (n \<le> length s \<and> list_all is_digit (take n s))"

definition digit_val :: "char \<Rightarrow> int" where
  "digit_val c = int (of_char c) - 48"

definition int_of_digits :: "string \<Rightarrow> int" where
  \<comment> \<open>\<open>int(s)\<close> for a string of decimal digits\<close>
  "int_of_digits s = foldl (\<lambda>a c. 10 * a + digit_val c) 0 s"

section \<open>Cache key\<close>

definition safe_build_name :: "string \<Rightarrow> string" where
  \<comment> \<open>\<open>re.sub(r'[^\w\-_]', '_', name)\<close>, the same expression in
      \<open>save_build_data_to_csv\<close>, \<open>check_cached_builds\<close> and the loading of cached builds\<close>
  "safe_build_name name =
     map (\<lambda>c. if is_word c \<or> c = CHR ''-'' \<or> c = CHR ''_'' then c else CHR ''_'') name"

definition path_join :: "string \<Rightarrow> string \<Rightarrow> string" where
  \<comment> \<open>\<open>os.path.join(a, b)\<close> on a POSIX system: an absolute second component replaces the
      first, and a separator is put between the two unless the first is empty or ends with
      one\<close>
  "path_join a b =
     (if startswith b ''/'' then b
      else if a = [] \<or> last a = CHR ''/'' then a @ b
      else a @ ''/'' @ b)"

definition csv_path :: "string \<Rightarrow> string \<Rightarrow> string \<Rightarrow> string" where
  \<comment> \<open>\<open>release_dir = os.path.join(cache_dir, release_milestone)\<close> and
      \<open>os.path.join(release_dir, safe_build_name + '.csv')\<close>\<close>
  "csv_path cache_dir release_milestone name =
     path_join (path_join cache_dir release_milestone) (safe_build_name name @ ''.csv'')"

fun check_cached_builds ::
  "(string \<Rightarrow> bool) \<Rightarrow> string \<Rightarrow> string \<Rightarrow> string list \<Rightarrow> string list \<times> string list" where
  \<comment> \<open>the first argument is \<open>os.path.exists\<close>; a build milestone is given by its name\<close>
  "check_cached_builds exists cache_dir release_milestone [] = ([], [])"
| "check_cached_builds exists cache_dir release_milestone (b # bs) =
     (let (cached, uncached) = check_cached_builds exists cache_dir release_milestone bs
      in if exists (csv_path cache_dir release_milestone b)
         then (b # cached, uncached) else (cached, b # uncached))"

section \<open>Build dates\<close>

record calendar_date =
  year :: int
  month :: int
  day :: int

datatype error =
    ValueError | TypeError | KeyError | IndexError | StopIteration | CsvError
  | ApiTimeout | ApiConnectionError | ApiStatus int | ApiInvalidJson

definition is_leap :: "int \<Rightarrow> bool" where
  "is_leap y = (y mod 4 = 0 \<and> (y mod 100 \<noteq> 0 \<or> y mod 400 = 0))"

definition days_in_month :: "int \<Rightarrow> int \<Rightarrow> int" where
  "days_in_month y m =
     (if m = 2 then (if is_leap y then 29 else 28)
      else if m = 4 \<or> m = 6 \<or> m = 9 \<or> m = 11 then 30 else 31)"

definition valid_date :: "calendar_date \<Rightarrow> bool" where
  "valid_date d = (1 \<le> year d \<and> year d \<le> 9999 \<and> 1 \<le> month d \<and> month d \<le> 12
                   \<and> 1 \<le> day d \<and> day d \<le> days_in_month (year d) (month d))"

definition datetime :: "int \<Rightarrow> int \<Rightarrow> int \<Rightarrow> error + calendar_date" where
  \<comment> \<open>the constructor \<open>datetime(year, month, day)\<close>, which raises \<open>ValueError\<close> outside
      the calendar\<close>
  "datetime y m d =
     (if 1 \<le> y \<and> y \<le> 9999 \<and> 1 \<le> m \<and> m \<le> 12 \<and> 1 \<le> d \<and> d \<le> days_in_month y m
      then Inr \<lparr>year = y, month = m, day = d\<rparr> else Inl ValueError)"

definition skip_hyphen :: "string \<Rightarrow> string" where
  \<comment> \<open>\<open>[-]?\<close> before a \<open>\d\<close>: the hyphen is taken when it is there (a hyphen left in
      place could not match the digit that follows)\<close>
  "skip_hyphen s = (case s of [] \<Rightarrow> [] | c # cs \<Rightarrow> if c = CHR ''-'' then cs else c # cs)"

definition date_pattern1 :: "string \<Rightarrow> (string \<times> string \<times> string) option" where
  \<comment> \<open>\<open>(\d{4})(\d{2})(\d{2})(\d{4})\<close>; the fourth group is never read\<close>
  "date_pattern1 s =
     (if digits_at 12 s then Some (take 4 s, take 2 (drop 4 s), take 2 (drop 6 s)) else None)"

definition date_pattern2 :: "string \<Rightarrow> (string \<times> string \<times> string) option" where
  \<comment> \<open>\<open>(\d{4})(\d{2})(\d{2})_(\d{6})\<close>\<close>
  "date_pattern2 s =
     (if digits_at 8 s \<and> startswith (drop 8 s) ''_'' \<and> digits_at 6 (drop 9 s)
      then Some (take 4 s, take 2 (drop 4 s), take 2 (drop 6 s)) else None)"

definition date_pattern3 :: "string \<Rightarrow> (string \<times> string \<times> string) option" where
  \<comment> \<open>\<open>(\d{4})[-]?(\d{2})[-]?(\d{2})\<close>\<close>
  "date_pattern3 s =
     (if digits_at 4 s then
        (let r = skip_hyphen (drop 4 s) in
         if digits_at 2 r then
           (let r' = skip_hyphen (drop 2 r) in
            if digits_at 2 r' then Some (take 4 s, take 2 r, take 2 r') else None)
         else None)
      else None)"

definition try_date :: "(string \<times> string \<times> string) option \<Rightarrow> calendar_date option" where
  \<comment> \<open>\<open>if match: try: return datetime(int(year), int(month), int(day)) except: pass\<close>;
      \<open>None\<close> stands for falling through to the next pattern\<close>
  "try_date m =
     (case m of
        None \<Rightarrow> None
      | Some (y, mo, d) \<Rightarrow>
          (case datetime (int_of_digits y) (int_of_digits mo) (int_of_digits d) of
             Inl e \<Rightarrow> None
           | Inr dt \<Rightarrow> Some dt))"

definition parse_build_date :: "string \<Rightarrow> calendar_date option" where
  "parse_build_date milestone_name =
     (case try_date (re_search date_pattern1 milestone_name) of
        Some dt \<Rightarrow> Some dt
      | None \<Rightarrow>
          (case try_date (re_search date_pattern2 milestone_name) of
             Some dt \<Rightarrow> Some dt
           | None \<Rightarrow> try_date (re_search date_pattern3 milestone_name)))"

definition matches_release_pattern :: "string \<Rightarrow> string \<Rightarrow> bool" where
  "matches_release_pattern milestone_name release_milestone =
     (let ms_lower = lower milestone_name; release_lower = lower release_milestone in
      if release_lower = ''cs-1'' then
        startswith ms_lower ''cs-17-'' \<and> parse_build_date milestone_name \<noteq> None
      else if release_lower \<in> set [''switch-17'', ''switch-18''] then
        startswith ms_lower (release_lower @ ''-'') \<and> parse_build_date milestone_name \<noteq> None
      else if release_lower = ''nightly'' then
        startswith ms_lower ''t-'' \<and> parse_build_date milestone_name \<noteq> None
      else if release_lower = ''aurora2'' then
        contains ms_lower ''cisco_ios_xe_software''
        \<and> (contains ms_lower ''bld_v17'' \<or> contains ms_lower ''bld_v16'')
        \<and> parse_build_date milestone_name \<noteq> None
      else if release_lower = ''trunk'' then
        parse_build_date milestone_name \<noteq> None
      else
        startswith ms_lower (release_lower @ ''-'') \<and> parse_build_date milestone_name \<noteq> None)"


section \<open>Properties of the cache key\<close>

text \<open>
  C5 as stated: every character outside \<open>[A-Za-z0-9_-]\<close> is replaced with an underscore.
  It fails for the letter U+00E9 (e with acute accent), which is outside the set and which
  \<open>\w\<close> matches, so that the sanitized name keeps it.
\<close>

theorem safe_build_name_keeps_accented_letter:
  "\<not> in_name_set (CHR 0xE9) \<and> safe_build_name [CHR ''c'', CHR 0xE9] = [CHR ''c'', CHR 0xE9]"
  by (simp add: safe_build_name_def in_name_set_def is_word_def is_upper_half_alnum_def
      is_digit_def is_ascii_upper_def is_ascii_lower_def)

text \<open>
  C5 as amended: the sanitized name has the length of the build name; a character inside
  \<open>[A-Za-z0-9_-]\<close> is unchanged, an ASCII character outside the set is replaced with an
  underscore, and a character beyond ASCII is kept exactly when it is alphanumeric
  (a letter or a numeric character), and replaced with an underscore otherwise.
\<close>

theorem safe_build_name_chars:
  "length (safe_build_name name) = length name
   \<and> (\<forall>i < length name.
         (in_name_set (name ! i) \<longrightarrow> safe_build_name name ! i = name ! i)
       \<and> (\<not> in_name_set (name ! i) \<and> (of_char (name ! i) :: nat) < 128
            \<longrightarrow> safe_build_name name ! i = CHR ''_'')
       \<and> (128 \<le> (of_char (name ! i) :: nat)
            \<longrightarrow> safe_build_name name ! i
                 = (if is_upper_half_alnum (name ! i) then name ! i else CHR ''_'')))"
  by (auto simp add: safe_build_name_def in_name_set_def is_word_def is_upper_half_alnum_def
      is_digit_def is_ascii_upper_def is_ascii_lower_def Let_def)

theorem safe_build_name_chars_witness:
  "(0 :: nat) < length ''a b-1'' \<and> in_name_set (''a b-1'' ! 0)
   \<and> safe_build_name ''a b-1'' ! 0 = CHR ''a''
   \<and> (1 :: nat) < length ''a b-1'' \<and> \<not> in_name_set (''a b-1'' ! 1)
   \<and> (of_char (''a b-1'' ! 1) :: nat) < 128
   \<and> safe_build_name ''a b-1'' ! 1 = CHR ''_''"
  using safe_build_name_chars [of "''a b-1''"]
  by (simp add: in_name_set_def is_digit_def is_ascii_upper_def is_ascii_lower_def)

section \<open>Properties of the date parser and of release matching\<close>

lemma try_date_valid: "try_date m = Some d \<Longrightarrow> valid_date d"
  by (auto simp: try_date_def datetime_def valid_date_def
      split: option.splits prod.splits sum.splits if_splits)

text \<open>
  C9: \<open>parse_build_date\<close> is total. The only operation of it that raises is the
  \<open>datetime\<close> constructor, and each of its three calls is inside a \<open>try\<close> whose handler
  falls through to the next pattern; so for every string the function returns, and the value
  is either none or a date of the calendar (year 1 to 9999, month 1 to 12, a day of that
  month).
\<close>

theorem parse_build_date_total:
  "parse_build_date s = None \<or> (\<exists>d. parse_build_date s = Some d \<and> valid_date d)"
proof (cases "parse_build_date s")
  case None
  then show ?thesis by simp
next
  case (Some d)
  then have "valid_date d"
    by (auto simp: parse_build_date_def split: option.splits dest: try_date_valid)
  with Some show ?thesis by simp
qed

lemma parse_build_date_examples:
  "parse_build_date ''cs-17-2-202506022349-G9b920b73c087-rel-bricklaying''
     = Some \<lparr>year = 2025, month = 6, day = 2\<rparr>"
  "parse_build_date ''Cisco_IOS_XE_Software_BLD_V1718_THROTTLE_LATEST_20250507_010754''
     = Some \<lparr>year = 2025, month = 5, day = 7\<rparr>"
  "parse_build_date ''build-20251340-2025-02-30'' = None"
  by (simp_all add: parse_build_date_def try_date_def date_pattern1_def date_pattern2_def
      date_pattern3_def skip_hyphen_def digits_at_def is_digit_def int_of_digits_def
      digit_val_def datetime_def days_in_month_def is_leap_def)

text \<open>
  C7: for the family \<open>CS-1\<close> an identifier matches exactly when its lower-cased form starts
  with \<open>cs-17-\<close> and it has a parsable date; for \<open>switch-17\<close> and \<open>switch-18\<close> exactly
  when its lower-cased form starts with the family followed by a hyphen and it has a parsable
  date. Every identifier that begins \<open>cs-17-2-202506022349-\<close> matches \<open>CS-1\<close>, and no
  identifier that begins \<open>switch-19-202506182240-\<close> matches \<open>switch-18\<close>.
\<close>

theorem matches_release_pattern_families:
  "matches_release_pattern s ''CS-1''
     = (startswith (lower s) ''cs-17-'' \<and> parse_build_date s \<noteq> None)
   \<and> matches_release_pattern s ''switch-17''
     = (startswith (lower s) ''switch-17-'' \<and> parse_build_date s \<noteq> None)
   \<and> matches_release_pattern s ''switch-18''
     = (startswith (lower s) ''switch-18-'' \<and> parse_build_date s \<noteq> None)
   \<and> matches_release_pattern (''cs-17-2-202506022349-'' @ rest) ''CS-1'' = True
   \<and> matches_release_pattern (''switch-19-202506182240-'' @ rest) ''switch-18'' = False"
proof -
  have low: "lower ''CS-1'' = ''cs-1''" "lower ''switch-17'' = ''switch-17''"
    "lower ''switch-18'' = ''switch-18''"
    by (simp_all add: lower_def)
  have families:
    "matches_release_pattern s ''CS-1''
       = (startswith (lower s) ''cs-17-'' \<and> parse_build_date s \<noteq> None)"
    "matches_release_pattern s ''switch-17''
       = (startswith (lower s) ''switch-17-'' \<and> parse_build_date s \<noteq> None)"
    "matches_release_pattern s ''switch-18''
       = (startswith (lower s) ''switch-18-'' \<and> parse_build_date s \<noteq> None)"
    by (simp_all add: matches_release_pattern_def low)
  have dated: "parse_build_date (''cs-17-2-202506022349-'' @ rest)
                 = Some \<lparr>year = 2025, month = 6, day = 2\<rparr>"
    by (simp add: parse_build_date_def try_date_def date_pattern1_def digits_at_def
        is_digit_def int_of_digits_def digit_val_def datetime_def days_in_month_def)
  have yes: "matches_release_pattern (''cs-17-2-202506022349-'' @ rest) ''CS-1''"
    using dated by (simp add: matches_release_pattern_def low lower_def)
  have no: "\<not> matches_release_pattern (''switch-19-202506182240-'' @ rest) ''switch-18''"
    by (simp add: matches_release_pattern_def low lower_def)
  from families yes no show ?thesis by simp
qed

section \<open>Status percentages\<close>

definition calculate_status_percentages ::
  "int \<Rightarrow> int \<Rightarrow> int \<Rightarrow> int \<Rightarrow> int \<Rightarrow> int \<Rightarrow> real \<times> real \<times> real \<times> real \<times> real" where
  \<comment> \<open>the division \<open>/\<close> of Python is taken in exact arithmetic; the five values returned are
      the pass, fail, error, blocked and skip percentages\<close>
  "calculate_status_percentages passed failed error blocked retest skipped =
     (let total = passed + failed + error + blocked + retest + skipped in
      if total = 0 then (0, 0, 0, 0, 0)
      else ((of_int passed / of_int total) * 100,
            (of_int failed / of_int total) * 100,
            (of_int error / of_int total) * 100,
            (of_int blocked / of_int total) * 100,
            (of_int skipped / of_int total) * 100))"

definition pct_sum :: "real \<times> real \<times> real \<times> real \<times> real \<Rightarrow> real" where
  "pct_sum r = (case r of (a, b, c, d, e) \<Rightarrow> a + b + c + d + e)"

definition pct_in_range :: "real \<times> real \<times> real \<times> real \<times> real \<Rightarrow> bool" where
  "pct_in_range r =
     (case r of (a, b, c, d, e) \<Rightarrow>
        0 \<le> a \<and> a \<le> 100 \<and> 0 \<le> b \<and> b \<le> 100 \<and> 0 \<le> c \<and> c \<le> 100
        \<and> 0 \<le> d \<and> d \<le> 100 \<and> 0 \<le> e \<and> e \<le> 100)"

definition retest_share :: "int \<Rightarrow> int \<Rightarrow> int \<Rightarrow> int \<Rightarrow> int \<Rightarrow> int \<Rightarrow> real" where
  \<comment> \<open>The retest percentage of the specification, \<open>retest / total * 100\<close>, with the
      function's own convention for an empty total. The function does not compute it.\<close>
  "retest_share passed failed error blocked retest skipped =
     (let total = passed + failed + error + blocked + retest + skipped in
      if total = 0 then 0 else (of_int retest / of_int total) * 100)"

text \<open>
  C2 as stated: for every tuple of non-negative counts the six percentages add up to 100.
  It fails for the tuple of six zeros, where the guard on an empty total returns five zeros.
  (The function returns no retest percentage: for one passed and one retest test the five
  values returned add up to 50.)
\<close>

theorem percentages_of_empty_total:
  "calculate_status_percentages 0 0 0 0 0 0 = (0, 0, 0, 0, 0)
   \<and> pct_sum (calculate_status_percentages 0 0 0 0 0 0) + retest_share 0 0 0 0 0 0 \<noteq> 100
   \<and> pct_sum (calculate_status_percentages 1 0 0 0 1 0) = 50"
  by (simp add: calculate_status_percentages_def pct_sum_def retest_share_def)

text \<open>
  C2 as amended: for every tuple of non-negative counts that are not all zero, the five
  percentages that \<open>calculate_status_percentages\<close> returns (pass, fail, error, blocked, skip)
  and the retest share \<open>retest / total * 100\<close> add up to 100, and each of them lies between
  0 and 100; for the tuple of six zeros the function returns five zeros.
\<close>

theorem percentages_sum_to_100:
  assumes "0 \<le> p" "0 \<le> f" "0 \<le> e" "0 \<le> b" "0 \<le> r" "0 \<le> s"
    and "0 < p + f + e + b + r + s"
  shows "pct_sum (calculate_status_percentages p f e b r s) + retest_share p f e b r s = 100
         \<and> pct_in_range (calculate_status_percentages p f e b r s)
         \<and> 0 \<le> retest_share p f e b r s \<and> retest_share p f e b r s \<le> 100"
proof -
  define t where "t = p + f + e + b + r + s"
  have t: "0 < t" "p \<le> t" "f \<le> t" "e \<le> t" "b \<le> t" "r \<le> t" "s \<le> t"
    using assms by (simp_all add: t_def)
  have tr: "(0::real) < of_int t" using t(1) by simp
  have le: "\<And>x. 0 \<le> x \<Longrightarrow> x \<le> t
              \<Longrightarrow> 0 \<le> (of_int x / of_int t :: real) * 100 \<and> (of_int x / of_int t :: real) * 100 \<le> 100"
    using tr by (simp add: divide_le_eq)
  have sum: "(of_int p / of_int t :: real) * 100 + of_int f / of_int t * 100
             + of_int e / of_int t * 100 + of_int b / of_int t * 100
             + of_int s / of_int t * 100 + of_int r / of_int t * 100 = 100"
  proof -
    have "(of_int p + of_int f + of_int e + of_int b + of_int s + of_int r :: real) = of_int t"
      by (simp add: t_def)
    then show ?thesis using tr by (simp add: field_simps)
  qed
  have "calculate_status_percentages p f e b r s
        = (of_int p / of_int t * 100, of_int f / of_int t * 100, of_int e / of_int t * 100,
           of_int b / of_int t * 100, of_int s / of_int t * 100)"
    using t(1) by (simp add: calculate_status_percentages_def t_def [symmetric] Let_def)
  moreover have "retest_share p f e b r s = of_int r / of_int t * 100"
    using t(1) by (simp add: retest_share_def t_def [symmetric] Let_def)
  ultimately show ?thesis
    using sum le [OF assms(1) t(2)] le [OF assms(2) t(3)] le [OF assms(3) t(4)]
      le [OF assms(4) t(5)] le [OF assms(5) t(6)] le [OF assms(6) t(7)]
    by (simp add: pct_sum_def pct_in_range_def)
qed

theorem percentages_sum_to_100_witness:
  "pct_sum (calculate_status_percentages 3 1 0 0 1 0) + retest_share 3 1 0 0 1 0 = 100
   \<and> pct_in_range (calculate_status_percentages 3 1 0 0 1 0)
   \<and> calculate_status_percentages 3 1 0 0 1 0 = (60, 20, 0, 0, 0)"
  using percentages_sum_to_100 [of 3 1 0 0 1 0]
  by (simp add: calculate_status_percentages_def)

section \<open>Remote data client\<close>

text \<open>
  A response body is a JSON value (numbers are integers here: no field that the client or the
  pipeline reads is fractional). A request is the endpoint with its arguments, which stands
  for the URI string that \<open>send_get\<close> formats. The server is a function from requests to
  the outcome of \<open>requests.get\<close>; every loop below asks for strictly increasing offsets, so a
  function of the request covers a server with state as well.
\<close>

datatype json = JNull | JBool bool | JInt int | JStr string | JList "json list"
  | JDict "(string \<times> json) list"

datatype request =
    GetMilestones int nat
  | GetPlans int nat
  | GetResultsForRun int nat int
  | GetMilestone int
  | GetPlan int
  | GetRun int
  | GetTests int
  | GetSections int int
  | GetCases int int

datatype http_outcome =
    Timeout
  | ConnectionError
  | Response int "json option"
    \<comment> \<open>the status code, and the body parsed as JSON (\<open>None\<close> when it is not JSON)\<close>

definition send_get :: "(request \<Rightarrow> http_outcome) \<Rightarrow> request \<Rightarrow> error + json" where
  "send_get srv uri =
     (case srv uri of
        Timeout \<Rightarrow> Inl ApiTimeout
      | ConnectionError \<Rightarrow> Inl ApiConnectionError
      | Response status_code body \<Rightarrow>
          if status_code \<noteq> 200 then Inl (ApiStatus status_code)
          else (case body of None \<Rightarrow> Inl ApiInvalidJson | Some j \<Rightarrow> Inr j))"

partial_function (option) fetch_all_loop ::
  "(nat \<Rightarrow> request) \<Rightarrow> (request \<Rightarrow> http_outcome) \<Rightarrow> json list \<Rightarrow> nat \<Rightarrow> request list
     \<Rightarrow> ((error + json) \<times> request list) option" where
  \<comment> \<open>the \<open>while True\<close> loop that \<open>get_milestones\<close> and \<open>get_plans\<close> share word for word,
      but for the endpoint: the bare \<open>except: break\<close> leaves the loop with the items collected
      so far. The last argument is the list of requests sent; \<open>None\<close> is a loop that never
      ends.\<close>
  "fetch_all_loop endpoint srv items offset sent =
     (case send_get srv (endpoint offset) of
        Inl e \<Rightarrow> Some (Inr (JList items), sent @ [endpoint offset])
      | Inr response \<Rightarrow>
          (case response of
             JList page \<Rightarrow>
               if page = [] then Some (Inr (JList items), sent @ [endpoint offset])
               else if length page < 250 then
                 Some (Inr (JList (items @ page)), sent @ [endpoint offset])
               else fetch_all_loop endpoint srv (items @ page) (offset + length page)
                      (sent @ [endpoint offset])
           | _ \<Rightarrow> Some (Inr response, sent @ [endpoint offset])))"

definition get_milestones ::
  "(request \<Rightarrow> http_outcome) \<Rightarrow> int \<Rightarrow> ((error + json) \<times> request list) option" where
  "get_milestones srv project_id = fetch_all_loop (GetMilestones project_id) srv [] 0 []"

definition get_plans ::
  "(request \<Rightarrow> http_outcome) \<Rightarrow> int \<Rightarrow> ((error + json) \<times> request list) option" where
  "get_plans srv project_id = fetch_all_loop (GetPlans project_id) srv [] 0 []"

definition current_limit_of :: "int option \<Rightarrow> nat \<Rightarrow> int option" where
  \<comment> \<open>the head of the loop body of \<open>get_results_for_run\<close>: the limit of the next request,
      or \<open>None\<close> for the \<open>break\<close> when nothing remains; \<open>if limit:\<close> is false for \<open>None\<close>
      and for 0\<close>
  "current_limit_of limit n =
     (case limit of
        None \<Rightarrow> Some 250
      | Some l \<Rightarrow>
          if l = 0 then Some 250
          else (let remaining = l - int n in
                if remaining \<le> 0 then None
                else if remaining < 250 then Some remaining else Some 250))"

function get_results_loop ::
  "(request \<Rightarrow> http_outcome) \<Rightarrow> int \<Rightarrow> int option \<Rightarrow> json list \<Rightarrow> nat \<Rightarrow> request list
     \<Rightarrow> json list \<times> request list" where
  \<comment> \<open>the loop of \<open>get_results_for_run\<close>, inside its \<open>try\<close>: an exception of \<open>send_get\<close> is
      reported and the results collected so far are returned. The progress lines on the page
      are left out.\<close>
  "get_results_loop srv run_id limit results offset sent =
     (case current_limit_of limit (length results) of
        None \<Rightarrow> (results, sent)
      | Some current_limit \<Rightarrow>
          (case send_get srv (GetResultsForRun run_id offset current_limit) of
             Inl e \<Rightarrow> (results, sent @ [GetResultsForRun run_id offset current_limit])
           | Inr batch \<Rightarrow>
               (case batch of
                  JList page \<Rightarrow>
                    if page = [] then
                      (results, sent @ [GetResultsForRun run_id offset current_limit])
                    else if int (length page) < current_limit then
                      (results @ page, sent @ [GetResultsForRun run_id offset current_limit])
                    else if length (results @ page) > 10000 then
                      (results @ page, sent @ [GetResultsForRun run_id offset current_limit])
                    else get_results_loop srv run_id limit (results @ page)
                           (offset + length page)
                           (sent @ [GetResultsForRun run_id offset current_limit])
                | _ \<Rightarrow> (results, sent @ [GetResultsForRun run_id offset current_limit]))))"
  by pat_completeness auto
termination
  by (relation "measure (\<lambda>(srv, run_id, limit, results, offset, sent). 10001 - length results)")
     (auto simp: neq_Nil_conv)

definition get_results_for_run ::
  "(request \<Rightarrow> http_outcome) \<Rightarrow> int \<Rightarrow> int option \<Rightarrow> json list" where
  "get_results_for_run srv run_id limit = fst (get_results_loop srv run_id limit [] 0 [])"

definition requests_of_get_results ::
  "(request \<Rightarrow> http_outcome) \<Rightarrow> int \<Rightarrow> int option \<Rightarrow> request list" where
  \<comment> \<open>the requests that one call of \<open>get_results_for_run\<close> sends, in order\<close>
  "requests_of_get_results srv run_id limit = snd (get_results_loop srv run_id limit [] 0 [])"

definition page_of :: "json list \<Rightarrow> http_outcome" where
  "page_of items = Response 200 (Some (JList items))"

definition full_pages :: "request \<Rightarrow> http_outcome" where
  \<comment> \<open>a server that answers every request with a full page of 250 items\<close>
  "full_pages uri = page_of (replicate 250 JNull)"

definition page_then_timeout :: "request \<Rightarrow> http_outcome" where
  \<comment> \<open>a server that answers offset 0 with a full page and times out afterwards\<close>
  "page_then_timeout uri =
     (if uri = GetMilestones 9 0 \<or> uri = GetPlans 9 0 then page_of (replicate 250 (JInt 7))
      else Timeout)"

definition three_pages :: "request \<Rightarrow> http_outcome" where
  \<comment> \<open>a server with 600 results for run 5, and a server error for any other request\<close>
  "three_pages uri =
     (if uri = GetResultsForRun 5 0 250 then page_of (replicate 250 (JInt 1))
      else if uri = GetResultsForRun 5 250 250 then page_of (replicate 250 (JInt 2))
      else if uri = GetResultsForRun 5 500 250 then page_of (replicate 100 (JInt 3))
      else Response 500 None)"

definition milestones_timeout :: "request \<Rightarrow> http_outcome" where
  \<comment> \<open>a server whose only failure is a timeout of the second milestones request\<close>
  "milestones_timeout uri =
     (if uri = GetMilestones 9 0 then page_of (replicate 250 (JInt 7))
      else if uri = GetMilestones 9 250 then Timeout
      else page_of [])"

definition plans_refused :: "request \<Rightarrow> http_outcome" where
  \<comment> \<open>a server whose only failure is a refused connection on the first plans request\<close>
  "plans_refused uri = (if uri = GetPlans 9 0 then ConnectionError else page_of [])"

fun page_offsets :: "nat \<Rightarrow> json list list \<Rightarrow> nat list" where
  \<comment> \<open>the offsets of the requests for the given pages from \<open>offset\<close> on, and of the
      request after the last of them: \<open>offset += len(response)\<close>\<close>
  "page_offsets offset [] = [offset]"
| "page_offsets offset (p # ps) = offset # page_offsets (offset + length p) ps"

fun serves ::
  "(request \<Rightarrow> http_outcome) \<Rightarrow> (nat \<Rightarrow> request) \<Rightarrow> nat \<Rightarrow> json list list \<Rightarrow> bool" where
  \<comment> \<open>the server answers the requests from \<open>offset\<close> on with the given pages, each of
      them full (of 250 items or more, so that the loop goes on)\<close>
  "serves srv endpoint offset [] = True"
| "serves srv endpoint offset (p # ps) =
     (srv (endpoint offset) = page_of p \<and> 250 \<le> length p
      \<and> serves srv endpoint (offset + length p) ps)"

section \<open>Properties of the remote data client\<close>

text \<open>
  C8: when the server answers the offsets 0, 250 and 500 with pages of 250, 250 and 100
  items, \<open>get_results_for_run\<close> without a limit returns the 600 items of the three pages in
  the order of the requests, and the requests it sends are those three and no other.
\<close>

theorem pagination_three_pages:
  assumes "srv (GetResultsForRun run_id 0 250) = page_of p1" and "length p1 = 250"
    and "srv (GetResultsForRun run_id 250 250) = page_of p2" and "length p2 = 250"
    and "srv (GetResultsForRun run_id 500 250) = page_of p3" and "length p3 = 100"
  shows "get_results_for_run srv run_id None = p1 @ p2 @ p3
         \<and> length (get_results_for_run srv run_id None) = 600
         \<and> requests_of_get_results srv run_id None
             = [GetResultsForRun run_id 0 250, GetResultsForRun run_id 250 250,
                GetResultsForRun run_id 500 250]"
proof -
  have ne: "p1 \<noteq> []" "p2 \<noteq> []" "p3 \<noteq> []"
    using assms by auto
  have "get_results_loop srv run_id None [] 0 []
          = (p1 @ p2 @ p3,
             [GetResultsForRun run_id 0 250, GetResultsForRun run_id 250 250,
              GetResultsForRun run_id 500 250])"
    by (simp add: current_limit_of_def send_get_def page_of_def assms ne)
  then show ?thesis
    by (simp add: get_results_for_run_def requests_of_get_results_def assms)
qed

theorem pagination_three_pages_witness:
  "get_results_for_run three_pages 5 None
     = replicate 250 (JInt 1) @ replicate 250 (JInt 2) @ replicate 100 (JInt 3)
   \<and> length (get_results_for_run three_pages 5 None) = 600
   \<and> requests_of_get_results three_pages 5 None
       = [GetResultsForRun 5 0 250, GetResultsForRun 5 250 250, GetResultsForRun 5 500 250]"
  using pagination_three_pages [of three_pages 5 "replicate 250 (JInt 1)"
      "replicate 250 (JInt 2)" "replicate 100 (JInt 3)"]
  by (simp add: three_pages_def)

lemma get_results_loop_bound:
  assumes ok: "\<And>offset page. srv (GetResultsForRun run_id offset 250) = page_of page
                 \<Longrightarrow> length page \<le> 250"
  shows "length results \<le> 10000
         \<Longrightarrow> length (fst (get_results_loop srv run_id None results offset sent)) \<le> 10250"
proof (induction "10001 - length results" arbitrary: results offset sent rule: less_induct)
  case less
  let ?req = "GetResultsForRun run_id offset 250"
  show ?case
  proof (cases "send_get srv ?req")
    case (Inl e)
    then show ?thesis
      using less.prems by (subst get_results_loop.simps) (simp add: current_limit_of_def)
  next
    case (Inr batch)
    show ?thesis
    proof (cases batch)
      case (JList page)
      with Inr have "srv ?req = page_of page"
        by (auto simp: send_get_def page_of_def split: http_outcome.splits if_splits option.splits)
      then have len: "length page \<le> 250" by (rule ok)
      show ?thesis
      proof (cases "page = [] \<or> length page < 250 \<or> length (results @ page) > 10000")
        case True
        then show ?thesis
          using less.prems len Inr JList
          by (subst get_results_loop.simps) (auto simp add: current_limit_of_def)
      next
        case False
        then have step: "get_results_loop srv run_id None results offset sent
            = get_results_loop srv run_id None (results @ page) (offset + length page)
                (sent @ [?req])"
          using Inr JList by (subst get_results_loop.simps) (simp add: current_limit_of_def)
        have "10001 - length (results @ page) < 10001 - length results"
          using False by (cases page) auto
        moreover have "length (results @ page) \<le> 10000" using False by simp
        ultimately show ?thesis
          using less.hyps [of "results @ page"] step by simp
      qed
    qed (use Inr less.prems in \<open>subst get_results_loop.simps, simp add: current_limit_of_def\<close>)+
  qed
qed

lemma full_pages_run:
  "length results = 250 * k \<Longrightarrow> k \<le> 40
   \<Longrightarrow> length (fst (get_results_loop full_pages run_id None results offset sent)) = 10250
     \<and> length (snd (get_results_loop full_pages run_id None results offset sent)) = length sent + (41 - k)"
proof (induction "40 - k" arbitrary: k results offset sent)
  case 0
  then have k: "k = 40" by simp
  with 0 show ?case
    by (subst (1 2) get_results_loop.simps)
       (simp add: current_limit_of_def send_get_def page_of_def full_pages_def)
next
  case (Suc n)
  then have k: "k < 40" by simp
  let ?page = "replicate 250 JNull"
  have step: "get_results_loop full_pages run_id None results offset sent
     = get_results_loop full_pages run_id None (results @ ?page) (offset + 250) (sent @ [GetResultsForRun run_id offset 250])"
    using Suc.prems k
    by (subst get_results_loop.simps)
       (simp add: current_limit_of_def send_get_def page_of_def full_pages_def)
  have "length (results @ ?page) = 250 * Suc k" using Suc.prems by simp
  moreover have "n = 40 - Suc k" "Suc k \<le> 40" using Suc.hyps(2) k by simp_all
  ultimately show ?case
    using Suc.hyps(1) [of "Suc k" "results @ ?page" "offset + 250" "sent @ [GetResultsForRun run_id offset 250]"] step k
    by simp
qed


text \<open>
  C10: a page holds at most the 250 items that the request asks for. Then
  \<open>get_results_for_run\<close> without a limit returns at most 10250 items, whatever the server
  answers; and against a server whose pages are all full it returns 10250 items, more than
  the ceiling of 10000, after 41 requests: the test \<open>len(results) > 10000\<close> comes after the
  batch has been appended.
\<close>

theorem results_ceiling:
  assumes "\<And>offset page. srv (GetResultsForRun run_id offset 250) = page_of page
             \<Longrightarrow> length page \<le> 250"
  shows "length (get_results_for_run srv run_id None) \<le> 10250
         \<and> length (get_results_for_run full_pages run_id None) = 10250
         \<and> length (requests_of_get_results full_pages run_id None) = 41"
  using get_results_loop_bound [of srv run_id "[]" 0 "[]", OF assms]
    full_pages_run [of "[]" 0 run_id 0 "[]"]
  by (simp add: get_results_for_run_def requests_of_get_results_def)

theorem results_ceiling_witness:
  "length (get_results_for_run full_pages 5 None) \<le> 10250
   \<and> 10000 < length (get_results_for_run full_pages 5 None)"
proof -
  have "\<And>offset page. full_pages (GetResultsForRun 5 offset 250) = page_of page
          \<Longrightarrow> length page \<le> 250"
    by (auto simp: full_pages_def page_of_def)
  from results_ceiling [of full_pages 5, OF this] show ?thesis by simp
qed

lemma fetch_all_loop_failure:
  assumes "srv (endpoint offset) = Timeout \<or> srv (endpoint offset) = ConnectionError"
  shows "fetch_all_loop endpoint srv items offset sent
           = Some (Inr (JList items), sent @ [endpoint offset])"
  using assms by (subst fetch_all_loop.simps) (auto simp: send_get_def)

lemma fetch_all_loop_full_page:
  assumes "srv (endpoint offset) = page_of page" "250 \<le> length page"
  shows "fetch_all_loop endpoint srv items offset sent
           = fetch_all_loop endpoint srv (items @ page) (offset + length page)
               (sent @ [endpoint offset])"
  using assms by (subst fetch_all_loop.simps) (auto simp: send_get_def page_of_def)

lemma fetch_all_loop_returns:
  assumes "fetch_all_loop endpoint srv items offset sent = Some r"
  shows "\<exists>j. fst r = Inr j"
proof (rule fetch_all_loop.raw_induct
    [where P = "\<lambda>endpoint srv items offset sent r. \<exists>j. fst r = Inr j", OF _ assms])
  fix loop endpoint srv items offset sent and r :: "(error + json) \<times> request list"
  assume IH: "\<And>endpoint srv items offset sent r.
                loop endpoint srv items offset sent = Some r \<Longrightarrow> \<exists>j. fst r = Inr j"
    and body: "(case send_get srv (endpoint offset) of
        Inl e \<Rightarrow> Some (Inr (JList items), sent @ [endpoint offset])
      | Inr response \<Rightarrow>
          (case response of
             JList page \<Rightarrow>
               if page = [] then Some (Inr (JList items), sent @ [endpoint offset])
               else if length page < 250 then
                 Some (Inr (JList (items @ page)), sent @ [endpoint offset])
               else loop endpoint srv (items @ page) (offset + length page)
                      (sent @ [endpoint offset])
           | _ \<Rightarrow> Some (Inr response, sent @ [endpoint offset]))) = Some r"
  show "\<exists>j. fst r = Inr j"
  proof (cases "send_get srv (endpoint offset)")
    case (Inl e)
    with body show ?thesis by auto
  next
    case (Inr response)
    show ?thesis
    proof (cases response)
      case (JList page)
      with body Inr IH show ?thesis by (auto split: if_splits)
    qed (use Inr body in auto)
  qed
qed

text \<open>
  C3 as stated: a timeout is propagated by \<open>get_milestones\<close> and \<open>get_plans\<close> to their
  caller. It fails for a server that answers offset 0 with a full page and times out at offset
  250: both functions return the 250 items of the first page, and no error.
\<close>

theorem partial_result_on_timeout:
  "page_then_timeout (GetMilestones 9 250) = Timeout
   \<and> get_milestones page_then_timeout 9
       = Some (Inr (JList (replicate 250 (JInt 7))), [GetMilestones 9 0, GetMilestones 9 250])
   \<and> page_then_timeout (GetPlans 9 250) = Timeout
   \<and> get_plans page_then_timeout 9
       = Some (Inr (JList (replicate 250 (JInt 7))), [GetPlans 9 0, GetPlans 9 250])"
proof -
  have t: "page_then_timeout (GetMilestones 9 250) = Timeout"
    "page_then_timeout (GetPlans 9 250) = Timeout"
    "page_then_timeout (GetMilestones 9 0) = page_of (replicate 250 (JInt 7))"
    "page_then_timeout (GetPlans 9 0) = page_of (replicate 250 (JInt 7))"
    by (simp_all add: page_then_timeout_def)
  have "get_milestones page_then_timeout 9
       = Some (Inr (JList (replicate 250 (JInt 7))), [GetMilestones 9 0, GetMilestones 9 250])"
    using fetch_all_loop_full_page [of page_then_timeout "GetMilestones 9" 0
        "replicate 250 (JInt 7)" "[]" "[]"]
      fetch_all_loop_failure [of page_then_timeout "GetMilestones 9" 250
        "replicate 250 (JInt 7)" "[GetMilestones 9 0]"]
    by (simp add: get_milestones_def t)
  moreover have "get_plans page_then_timeout 9
       = Some (Inr (JList (replicate 250 (JInt 7))), [GetPlans 9 0, GetPlans 9 250])"
    using fetch_all_loop_full_page [of page_then_timeout "GetPlans 9" 0
        "replicate 250 (JInt 7)" "[]" "[]"]
      fetch_all_loop_failure [of page_then_timeout "GetPlans 9" 250
        "replicate 250 (JInt 7)" "[GetPlans 9 0]"]
    by (simp add: get_plans_def t)
  ultimately show ?thesis using t by simp
qed

lemma fetch_all_loop_pages:
  "serves srv endpoint offset ps
   \<Longrightarrow> srv (endpoint (offset + length (concat ps))) = Timeout
       \<or> srv (endpoint (offset + length (concat ps))) = ConnectionError
   \<Longrightarrow> fetch_all_loop endpoint srv items offset sent
         = Some (Inr (JList (items @ concat ps)), sent @ map endpoint (page_offsets offset ps))"
proof (induction ps arbitrary: offset items sent)
  case Nil
  then show ?case
    using fetch_all_loop_failure [of srv endpoint offset items sent] by simp
next
  case (Cons p ps)
  have "fetch_all_loop endpoint srv items offset sent
      = fetch_all_loop endpoint srv (items @ p) (offset + length p) (sent @ [endpoint offset])"
    using Cons.prems(1) by (intro fetch_all_loop_full_page) simp_all
  also have "\<dots> = Some (Inr (JList ((items @ p) @ concat ps)),
      (sent @ [endpoint offset]) @ map endpoint (page_offsets (offset + length p) ps))"
    using Cons.prems by (intro Cons.IH) (simp_all add: ac_simps)
  finally show ?case by simp
qed

text \<open>
  C3 as amended: \<open>send_get\<close> raises a transport error to its caller when the HTTP call
  times out or fails to connect: a timeout for a timeout, a connection error for a failed
  connection. The paginated fetches \<open>get_milestones\<close> and \<open>get_plans\<close> catch it: when
  the server answers the first requests with full pages \<open>ps\<close> (none, one or more) and the
  request after them times out or fails to connect, the function returns the items of those
  pages and no error, and the requests it has sent are those for the pages and the failed
  one, once. The two hypotheses on the server are independent: a server on which only a
  milestones request fails is covered, and so is one on which only a plans request fails.
  And whatever the server does, these two functions return no error to their caller.
\<close>

theorem transport_errors:
  "(srv uri = Timeout \<longrightarrow> send_get srv uri = Inl ApiTimeout)
   \<and> (srv uri = ConnectionError \<longrightarrow> send_get srv uri = Inl ApiConnectionError)
   \<and> (serves srv (GetMilestones pid) 0 ps
        \<and> (srv (GetMilestones pid (length (concat ps))) = Timeout
           \<or> srv (GetMilestones pid (length (concat ps))) = ConnectionError)
      \<longrightarrow> get_milestones srv pid
            = Some (Inr (JList (concat ps)),
                    map (GetMilestones pid) (page_offsets 0 ps)))
   \<and> (serves srv (GetPlans pid) 0 ps'
        \<and> (srv (GetPlans pid (length (concat ps'))) = Timeout
           \<or> srv (GetPlans pid (length (concat ps'))) = ConnectionError)
      \<longrightarrow> get_plans srv pid
            = Some (Inr (JList (concat ps')), map (GetPlans pid) (page_offsets 0 ps')))
   \<and> (\<forall>e log. get_milestones srv pid \<noteq> Some (Inl e, log))
   \<and> (\<forall>e log. get_plans srv pid \<noteq> Some (Inl e, log))"
proof -
  have "get_milestones srv pid \<noteq> Some (Inl e, log)" for e log
    using fetch_all_loop_returns [of "GetMilestones pid" srv "[]" 0 "[]" "(Inl e, log)"]
    by (auto simp: get_milestones_def)
  moreover have "get_plans srv pid \<noteq> Some (Inl e, log)" for e log
    using fetch_all_loop_returns [of "GetPlans pid" srv "[]" 0 "[]" "(Inl e, log)"]
    by (auto simp: get_plans_def)
  moreover have "srv uri = Timeout \<longrightarrow> send_get srv uri = Inl ApiTimeout"
    and "srv uri = ConnectionError \<longrightarrow> send_get srv uri = Inl ApiConnectionError"
    by (simp_all add: send_get_def)
  ultimately show ?thesis
    using fetch_all_loop_pages [of srv "GetMilestones pid" 0 ps "[]" "[]"]
      fetch_all_loop_pages [of srv "GetPlans pid" 0 ps' "[]" "[]"]
    by (simp add: get_milestones_def get_plans_def)
qed

theorem transport_errors_witness:
  "send_get milestones_timeout (GetMilestones 9 250) = Inl ApiTimeout
   \<and> get_milestones milestones_timeout 9
       = Some (Inr (JList (replicate 250 (JInt 7))), [GetMilestones 9 0, GetMilestones 9 250])
   \<and> send_get plans_refused (GetPlans 9 0) = Inl ApiConnectionError
   \<and> get_plans plans_refused 9 = Some (Inr (JList []), [GetPlans 9 0])"
  using transport_errors [where srv = milestones_timeout and uri = "GetMilestones 9 250"
      and pid = 9 and ps = "[replicate 250 (JInt 7)]"]
    transport_errors [where srv = plans_refused and uri = "GetPlans 9 0"
      and pid = 9 and ps' = "[]"]
  by (simp add: milestones_timeout_def plans_refused_def)


section \<open>Build records\<close>

record status_counts =
  passed :: int
  failed :: int
  error :: int

record overall_counts = status_counts +
  blocked :: int
  retest :: int
  skipped :: int

record bucket = status_counts +
  sections :: "(string \<times> int) list"

record platform_data =
  single :: bucket
  stack :: bucket

record build_data =
  name :: "string option"
  date :: "string option"
  overall :: overall_counts
  platforms :: "(string \<times> platform_data) list"

definition zero_counts :: overall_counts where
  "zero_counts = \<lparr>passed = 0, failed = 0, error = 0, blocked = 0, retest = 0, skipped = 0\<rparr>"

definition empty_bucket :: bucket where
  "empty_bucket = \<lparr>passed = 0, failed = 0, error = 0, sections = []\<rparr>"

definition empty_platform :: platform_data where
  "empty_platform = \<lparr>single = empty_bucket, stack = empty_bucket\<rparr>"

definition new_build_data :: "string \<Rightarrow> string \<Rightarrow> build_data" where
  "new_build_data build_name build_date =
     \<lparr>name = Some build_name, date = Some build_date, overall = zero_counts, platforms = []\<rparr>"

fun add_count :: "string \<Rightarrow> int \<Rightarrow> (string \<times> int) list \<Rightarrow> (string \<times> int) list" where
  "add_count k n [] = [(k, n)]"
| "add_count k n ((k', v) # kvs) =
     (if k' = k then (k', v + n) # kvs else (k', v) # add_count k n kvs)"

fun update_platform ::
  "string \<Rightarrow> (platform_data \<Rightarrow> platform_data) \<Rightarrow> (string \<times> platform_data) list
     \<Rightarrow> (string \<times> platform_data) list" where
  "update_platform p f [] = [(p, f empty_platform)]"
| "update_platform p f ((k, v) # kvs) =
     (if k = p then (k, f v) # kvs else (k, v) # update_platform p f kvs)"

definition update_device :: "string \<Rightarrow> (bucket \<Rightarrow> bucket) \<Rightarrow> platform_data \<Rightarrow> platform_data" where
  "update_device device_type f pd =
     (if device_type = ''single'' then pd\<lparr>single := f (single pd)\<rparr>
      else if device_type = ''stack'' then pd\<lparr>stack := f (stack pd)\<rparr>
      else pd)"

section \<open>Aggregation pipeline\<close>

text \<open>
  The payloads of the API are typed by its schema: counts and ids are integers, names are
  strings. An id that is absent or null is 0 and a name that is absent or null is the empty
  string, which are as false as \<open>None\<close> where the code tests them; an entry of a list that
  is not an object is \<open>NotADict\<close>. A run carries the platform and the device type that
  \<open>extract_platform\<close> and \<open>categorize_device\<close> compute from its name. The record \<open>api\<close>
  holds the outcomes of the calls on the API object; \<open>results_of\<close> is
  \<open>get_results_for_run\<close>, which returns a list and never raises.
\<close>

datatype 'a item = NotADict | Dict 'a

record run_details =
  passed_count :: int
  failed_count :: int
  blocked_count :: int
  retest_count :: int
  untested_count :: int
  custom_status1_count :: int
  custom_status2_count :: int

record run =
  run_id :: int
  suite_id :: int
  platform :: string
  device_type :: string

record api =
  run_details_of :: "int \<Rightarrow> error + run_details"
  results_of :: "int \<Rightarrow> (int \<times> int) item list"
  tests_of :: "int \<Rightarrow> error + (int \<times> int) item list"
  cases_of :: "int \<Rightarrow> int \<Rightarrow> error + (int \<times> int) item list"
  sections_of :: "int \<Rightarrow> int \<Rightarrow> error + (int \<times> string) item list"
  plan_of :: "int \<Rightarrow> error + run list"
  error_text :: "error \<Rightarrow> string"

definition project_id :: int where
  "project_id = 9"

fun tally :: "(int \<times> int) item \<Rightarrow> overall_counts \<Rightarrow> overall_counts" where
  \<comment> \<open>one result, a pair of \<open>status_id\<close> and \<open>test_id\<close>, counted into \<open>build_data_temp\<close>\<close>
  "tally NotADict t = t"
| "tally (Dict (status, test_id)) t =
     (if status = 1 then t\<lparr>passed := passed t + 1\<rparr>
      else if status = 5 then t\<lparr>failed := failed t + 1\<rparr>
      else if status = 6 then t\<lparr>error := error t + 1\<rparr>
      else if status = 7 then t\<lparr>skipped := skipped t + 1\<rparr>
      else if status = 2 then t\<lparr>blocked := blocked t + 1\<rparr>
      else if status = 4 then t\<lparr>retest := retest t + 1\<rparr>
      else if status = 3 then t\<lparr>skipped := skipped t + 1\<rparr>
      else t)"

definition count_results :: "(int \<times> int) item list \<Rightarrow> overall_counts" where
  "count_results results = fold tally results zero_counts"

definition add_overall :: "overall_counts \<Rightarrow> build_data \<Rightarrow> build_data" where
  \<comment> \<open>the six statements \<open>build_data['overall'][...] += ...\<close>\<close>
  "add_overall c bd =
     bd\<lparr>overall := \<lparr>passed = passed (overall bd) + passed c,
                     failed = failed (overall bd) + failed c,
                     error = error (overall bd) + error c,
                     blocked = blocked (overall bd) + blocked c,
                     retest = retest (overall bd) + retest c,
                     skipped = skipped (overall bd) + skipped c\<rparr>\<rparr>"

definition on_bucket ::
  "string \<Rightarrow> string \<Rightarrow> (bucket \<Rightarrow> bucket) \<Rightarrow> build_data \<Rightarrow> build_data" where
  \<comment> \<open>a change of \<open>build_data['platforms'][platform][device_type]\<close>\<close>
  "on_bucket p dt f bd =
     bd\<lparr>platforms := update_platform p (update_device dt f) (platforms bd)\<rparr>"

definition classified :: "run \<Rightarrow> bool" where
  "classified r = (platform r \<noteq> ''Unknown'' \<and> device_type r \<in> set [''single'', ''stack''])"

definition add_platform :: "run \<Rightarrow> overall_counts \<Rightarrow> build_data \<Rightarrow> build_data" where
  "add_platform r c bd =
     (if classified r then
        on_bucket (platform r) (device_type r)
          (\<lambda>b. b\<lparr>passed := passed b + passed c, failed := failed b + failed c,
                  error := error b + error c\<rparr>) bd
      else bd)"

definition add_section :: "run \<Rightarrow> string \<Rightarrow> int \<Rightarrow> build_data \<Rightarrow> build_data" where
  "add_section r label n bd =
     on_bucket (platform r) (device_type r)
       (\<lambda>b. b\<lparr>sections := add_count label n (sections b)\<rparr>) bd"

definition dict_of :: "('k \<times> 'v) list \<Rightarrow> 'k \<Rightarrow> 'v option" where
  \<comment> \<open>a dict comprehension: a later pair replaces an earlier one with the same key\<close>
  "dict_of kvs = map_of (rev kvs)"

definition truthy_pairs :: "(int \<times> int) item list \<Rightarrow> (int \<times> int) list" where
  "truthy_pairs xs = [(a, b). Dict (a, b) \<leftarrow> xs, a \<noteq> 0 \<and> b \<noteq> 0]"

definition named_sections :: "(int \<times> string) item list \<Rightarrow> (int \<times> string) list" where
  "named_sections xs = [(i, n). Dict (i, n) \<leftarrow> xs, i \<noteq> 0 \<and> n \<noteq> []]"

fun section_of_result ::
  "(int \<Rightarrow> int option) \<Rightarrow> (int \<Rightarrow> int option) \<Rightarrow> (int \<Rightarrow> string option)
     \<Rightarrow> (int \<times> int) item \<Rightarrow> string option" where
  "section_of_result test_to_case case_to_section_id section_id_to_name NotADict = None"
| "section_of_result test_to_case case_to_section_id section_id_to_name
     (Dict (status, test_id)) =
     (if status \<in> set [5, 6] \<and> test_id \<noteq> 0 then
        (case test_to_case test_id of
           None \<Rightarrow> None
         | Some case_id \<Rightarrow>
             (case case_to_section_id case_id of
                None \<Rightarrow> None
              | Some section_id \<Rightarrow> section_id_to_name section_id))
      else None)"

definition map_sections ::
  "api \<Rightarrow> run \<Rightarrow> (int \<times> int) item list \<Rightarrow> int \<Rightarrow> build_data \<Rightarrow> build_data" where
  "map_sections a r results fe bd =
     (if suite_id r \<noteq> 0 then
        (case tests_of a (run_id r) of
           Inl e \<Rightarrow> add_section r (''Mapping Error: '' @ take 50 (error_text a e)) fe bd
         | Inr tests \<Rightarrow>
             (case cases_of a project_id (suite_id r) of
                Inl e \<Rightarrow> add_section r (''Mapping Error: '' @ take 50 (error_text a e)) fe bd
              | Inr cases \<Rightarrow>
                  (case sections_of a project_id (suite_id r) of
                     Inl e \<Rightarrow>
                       add_section r (''Mapping Error: '' @ take 50 (error_text a e)) fe bd
                   | Inr secs \<Rightarrow>
                       (let test_to_case = dict_of (truthy_pairs tests);
                            case_to_section_id = dict_of (truthy_pairs cases);
                            section_id_to_name = dict_of (named_sections secs);
                            found = List.map_filter
                              (section_of_result test_to_case case_to_section_id
                                 section_id_to_name) results;
                            section_counts = fold (\<lambda>n. add_count n 1) found []
                        in if found \<noteq> [] then
                             fold (\<lambda>(n, c). add_section r n c) section_counts bd
                           else add_section r ''Failed to map sections'' fe bd))))
      else add_section r ''No Suite ID'' fe bd)"

definition detail_tier ::
  "bool \<Rightarrow> api \<Rightarrow> run \<Rightarrow> (int \<times> int) item list \<Rightarrow> build_data \<Rightarrow> build_data" where
  "detail_tier fetch_sections a r results bd =
     (let build_data_temp = count_results results;
          fe = failed build_data_temp + error build_data_temp;
          bd1 = add_platform r build_data_temp (add_overall build_data_temp bd)
      in if fetch_sections \<and> fe > 0 \<and> classified r then map_sections a r results fe bd1
         else if \<not> fetch_sections \<and> fe > 0 \<and> classified r then
           add_section r ''Section details not fetched'' fe bd1
         else bd1)"

fun estimate_loop ::
  "int \<Rightarrow> int \<Rightarrow> nat \<Rightarrow> string list \<Rightarrow> (string \<times> int) list \<Rightarrow> (string \<times> int) list" where
  \<comment> \<open>\<open>for i, section_name in enumerate(section_names[:5])\<close>, from index \<open>i\<close> on\<close>
  "estimate_loop failures_per_section remainder i [] secs = secs"
| "estimate_loop failures_per_section remainder i (section_name # rest) secs =
     (let count = failures_per_section + (if int i < remainder then 1 else 0)
      in estimate_loop failures_per_section remainder (Suc i) rest
           (if count > 0 then add_count (section_name @ '' (estimated)'') count secs
            else secs))"

definition section_names_of :: "(int \<times> string) item list \<Rightarrow> string list" where
  "section_names_of secs = [n. Dict (i, n) \<leftarrow> secs, n \<noteq> []]"

definition summary_sections ::
  "bool \<Rightarrow> api \<Rightarrow> run \<Rightarrow> int \<Rightarrow> (string \<times> int) list \<Rightarrow> (string \<times> int) list" where
  \<comment> \<open>the block under \<open>if (failed + error) > 0\<close> of the summary tier, on the sections of
      the run's bucket; \<open>fe\<close> is \<open>failed + error\<close>\<close>
  "summary_sections fetch_sections a r fe secs =
     (if fetch_sections then
        (if suite_id r \<noteq> 0 then
           (case sections_of a project_id (suite_id r) of
              Inl e \<Rightarrow> add_count ''Summary data - section details not available'' fe secs
            | Inr sections_list \<Rightarrow>
                if sections_list \<noteq> [] then
                  (let section_names = section_names_of sections_list in
                   if section_names \<noteq> [] then
                     (let failures_per_section = fe div int (length section_names);
                          remainder = fe mod int (length section_names)
                      in estimate_loop failures_per_section remainder 0
                           (take 5 section_names) secs)
                   else add_count ''Summary data - no valid sections found'' fe secs)
                else add_count ''Summary data - no sections found'' fe secs)
         else add_count ''Summary data - no suite information'' fe secs)
      else add_count ''Summary data - details not available'' fe secs)"

definition summary_counts :: "run_details \<Rightarrow> overall_counts" where
  "summary_counts d =
     \<lparr>passed = passed_count d, failed = failed_count d, error = custom_status2_count d,
      blocked = blocked_count d, retest = retest_count d,
      skipped = untested_count d + custom_status1_count d\<rparr>"

definition summary_tier ::
  "bool \<Rightarrow> api \<Rightarrow> run \<Rightarrow> run_details \<Rightarrow> build_data \<Rightarrow> build_data" where
  "summary_tier fetch_sections a r d bd =
     (let c = summary_counts d;
          bd1 = add_platform r c (add_overall c bd)
      in if classified r \<and> failed c + error c > 0 then
           on_bucket (platform r) (device_type r)
             (\<lambda>b. b\<lparr>sections :=
                      summary_sections fetch_sections a r (failed c + error c) (sections b)\<rparr>)
             bd1
         else bd1)"

definition process_run :: "bool \<Rightarrow> bool \<Rightarrow> api \<Rightarrow> run \<Rightarrow> build_data \<Rightarrow> build_data" where
  \<comment> \<open>the body of \<open>for run in entry.get('runs', [])\<close>; an exception of \<open>get_run\<close> is
      reported and the run is skipped\<close>
  "process_run fetch_sections force_summary_only a r bd =
     (case run_details_of a (run_id r) of
        Inl e \<Rightarrow> bd
      | Inr d \<Rightarrow>
          (let test_count = passed_count d + failed_count d + blocked_count d + retest_count d
                 + untested_count d + custom_status1_count d + custom_status2_count d;
               executed_count = passed_count d + failed_count d + blocked_count d
                 + retest_count d + custom_status1_count d + custom_status2_count d
           in if test_count = 0 \<or> executed_count = 0 then bd
              else
                (let results = (if \<not> force_summary_only \<and> executed_count < 10000
                                then results_of a (run_id r) else [])
                 in if results \<noteq> [] then detail_tier fetch_sections a r results bd
                    else summary_tier fetch_sections a r d bd)))"

definition process_runs ::
  "bool \<Rightarrow> bool \<Rightarrow> api \<Rightarrow> run list \<Rightarrow> build_data \<Rightarrow> build_data" where
  "process_runs fetch_sections force_summary_only a runs bd =
     fold (process_run fetch_sections force_summary_only a) runs bd"

definition process_plan :: "bool \<Rightarrow> bool \<Rightarrow> api \<Rightarrow> int \<Rightarrow> build_data \<Rightarrow> build_data" where
  \<comment> \<open>the body of \<open>for plan in milestone_plans\<close>: the runs of all entries of the plan,
      in order; an exception of \<open>get_plan\<close> is reported and the plan is skipped\<close>
  "process_plan fetch_sections force_summary_only a plan_id bd =
     (case plan_of a plan_id of
        Inl e \<Rightarrow> bd
      | Inr runs \<Rightarrow> process_runs fetch_sections force_summary_only a runs bd)"

definition process_build ::
  "bool \<Rightarrow> bool \<Rightarrow> api \<Rightarrow> string \<Rightarrow> string \<Rightarrow> int list \<Rightarrow> build_data option" where
  \<comment> \<open>the body of \<open>for idx, build_ms in enumerate(uncached_builds)\<close>, given the ids of the
      plans of the build's milestone: a build without plans yields no record\<close>
  "process_build fetch_sections force_summary_only a build_name build_date milestone_plans =
     (if milestone_plans = [] then None
      else Some (fold (process_plan fetch_sections force_summary_only a) milestone_plans
                   (new_build_data build_name build_date)))"

section \<open>Properties of the aggregation pipeline\<close>

definition sections_total :: "(string \<times> int) list \<Rightarrow> int" where
  "sections_total secs = sum_list (map snd secs)"

lemma sections_total_add_count:
  "sections_total (add_count k n secs) = sections_total secs + n"
  by (induction secs) (auto simp: sections_total_def)

lemma estimate_loop_total:
  assumes "0 \<le> q" "0 \<le> rm"
  shows "sections_total (estimate_loop q rm i names secs)
           = sections_total secs + q * int (length names)
             + (min (int (i + length names)) rm - min (int i) rm)"
proof (induction names arbitrary: i secs)
  case Nil
  then show ?case by simp
next
  case (Cons n names)
  define c where "c = q + (if int i < rm then 1 else 0)"
  define secs' where
    "secs' = (if c > 0 then add_count (n @ '' (estimated)'') c secs else secs)"
  have c: "c = q + (min (int (Suc i)) rm - min (int i) rm)"
    by (auto simp: c_def min_def)
  have "0 \<le> c" using assms by (simp add: c_def)
  then have total': "sections_total secs' = sections_total secs + c"
    by (auto simp: secs'_def sections_total_add_count)
  have "estimate_loop q rm i (n # names) secs = estimate_loop q rm (Suc i) names secs'"
    by (simp add: c_def secs'_def Let_def)
  then have "sections_total (estimate_loop q rm i (n # names) secs)
      = sections_total secs' + q * int (length names)
        + (min (int (Suc i + length names)) rm - min (int (Suc i)) rm)"
    using Cons.IH [of "Suc i" secs'] by simp
  also have "\<dots> = sections_total secs + q * int (length (n # names))
        + (min (int (i + length (n # names))) rm - min (int i) rm)"
    by (simp add: total' c algebra_simps)
  finally show ?case .
qed

lemma summary_sections_total:
  assumes "fetch_sections" "suite_id r \<noteq> 0"
    and "sections_of a project_id (suite_id r) = Inr sections_list"
    and "section_names_of sections_list \<noteq> []" and "0 \<le> fe"
  shows "sections_total (summary_sections fetch_sections a r fe secs)
           = sections_total secs
             + (let n = int (length (section_names_of sections_list)) in
                if n \<le> 5 then fe else 5 * (fe div n) + min 5 (fe mod n))"
proof -
  let ?names = "section_names_of sections_list"
  let ?n = "int (length ?names)"
  have n: "0 < ?n" using assms(4) by simp
  have ne: "sections_list \<noteq> []" using assms(4) by (auto simp: section_names_of_def)
  have q: "0 \<le> fe div ?n" and rm: "0 \<le> fe mod ?n" "fe mod ?n < ?n"
    using n assms(5) by (simp_all add: pos_imp_zdiv_nonneg_iff)
  have "sections_total (summary_sections fetch_sections a r fe secs)
      = sections_total (estimate_loop (fe div ?n) (fe mod ?n) 0 (take 5 ?names) secs)"
    using assms ne by (simp add: summary_sections_def Let_def)
  also have "\<dots> = sections_total secs + (fe div ?n) * int (length (take 5 ?names))
        + (min (int (0 + length (take 5 ?names))) (fe mod ?n) - min (int 0) (fe mod ?n))"
    by (rule estimate_loop_total [OF q rm(1)])
  also have "\<dots> = sections_total secs
             + (if ?n \<le> 5 then fe else 5 * (fe div ?n) + min 5 (fe mod ?n))"
  proof (cases "?n \<le> 5")
    case True
    then have "length (take 5 ?names) = length ?names" by simp
    moreover have "fe = ?n * (fe div ?n) + fe mod ?n" by simp
    ultimately show ?thesis using True rm
      by (simp add: min_def algebra_simps)
  next
    case False
    then have "length (take 5 ?names) = 5" by simp
    then show ?thesis using False rm by (simp add: min_def)
  qed
  finally show ?thesis by (simp add: Let_def)
qed

definition c9300_run :: run where
  "c9300_run = \<lparr>run_id = 1, suite_id = 3, platform = ''C9300'', device_type = ''single''\<rparr>"

definition unclassified_run :: run where
  "unclassified_run = \<lparr>run_id = 2, suite_id = 3, platform = ''Unknown'', device_type = ''stack''\<rparr>"

definition six_sections :: api where
  "six_sections =
     \<lparr>run_details_of = (\<lambda>i. Inr \<lparr>passed_count = 4, failed_count = 4, blocked_count = 0,
          retest_count = 0, untested_count = 0, custom_status1_count = 0,
          custom_status2_count = 2\<rparr>),
      results_of = (\<lambda>i. []),
      tests_of = (\<lambda>i. Inr []),
      cases_of = (\<lambda>p s. Inr []),
      sections_of = (\<lambda>p s. Inr [Dict (1, ''s1''), Dict (2, ''s2''), Dict (3, ''s3''),
          Dict (4, ''s4''), Dict (5, ''s5''), Dict (6, ''s6'')]),
      plan_of = (\<lambda>i. Inr [c9300_run, unclassified_run]),
      error_text = (\<lambda>e. [])\<rparr>"

definition two_sections :: api where
  "two_sections = six_sections
     \<lparr>sections_of := (\<lambda>p s. Inr [Dict (1, ''s1''), NotADict, Dict (2, ''s2'')])\<rparr>"

text \<open>
  C4 as stated: the estimate attributes the whole of \<open>failed + error\<close> to the estimated
  labels. It fails for a run of platform C9300 on a single device, with 4 failed and 2 errored
  tests and no detailed results, whose suite has six named sections: each section's share is
  1, only the first five sections are recorded, and the counts under the estimated labels add
  up to 5.
\<close>

theorem estimate_drops_failures:
  "process_run True False six_sections c9300_run (new_build_data ''b'' ''2025-06-02'')
     = \<lparr>name = Some ''b'', date = Some ''2025-06-02'',
        overall = \<lparr>passed = 4, failed = 4, error = 2, blocked = 0, retest = 0, skipped = 0\<rparr>,
        platforms =
          [(''C9300'',
            \<lparr>single = \<lparr>passed = 4, failed = 4, error = 2,
                 sections = [(''s1 (estimated)'', 1), (''s2 (estimated)'', 1),
                   (''s3 (estimated)'', 1), (''s4 (estimated)'', 1),
                   (''s5 (estimated)'', 1)]\<rparr>,
             stack = \<lparr>passed = 0, failed = 0, error = 0, sections = []\<rparr>\<rparr>)]\<rparr>
   \<and> sections_total (summary_sections True six_sections c9300_run (4 + 2) []) = 5"
  by (simp add: process_run_def six_sections_def c9300_run_def new_build_data_def
      summary_tier_def summary_counts_def add_platform_def add_overall_def classified_def
      on_bucket_def update_device_def zero_counts_def empty_platform_def empty_bucket_def
      summary_sections_def section_names_of_def project_id_def sections_total_def Let_def)

lemma keys_add_count: "fst ` set (add_count k n secs) = insert k (fst ` set secs)"
proof (induction secs)
  case Nil
  then show ?case by simp
next
  case (Cons kv secs)
  obtain k' v where kv: "kv = (k', v)" by (cases kv)
  show ?case using Cons.IH by (cases "k' = k") (auto simp: kv)
qed

fun count_of :: "string \<Rightarrow> (string \<times> int) list \<Rightarrow> int" where
  \<comment> \<open>the count recorded under a label, 0 for a label that is absent: what
      \<open>sections[label]\<close> reads from the \<open>defaultdict(int)\<close>\<close>
  "count_of label [] = 0"
| "count_of label ((k, v) # kvs) = (if k = label then v else count_of label kvs)"

definition estimated_share :: "int \<Rightarrow> nat \<Rightarrow> nat \<Rightarrow> int" where
  \<comment> \<open>the share of the section of index \<open>i\<close> among \<open>n\<close> named sections, as the claim words
      it: the quotient, and one more for the first \<open>fe mod n\<close> sections\<close>
  "estimated_share fe n i = fe div int n + (if int i < fe mod int n then 1 else 0)"

definition estimated_label :: "string \<Rightarrow> string" where
  "estimated_label section_name = section_name @ '' (estimated)''"

lemma count_of_add_count:
  "count_of label (add_count k n secs) = count_of label secs + (if k = label then n else 0)"
  by (induction secs) auto

lemma distinct_add_count:
  "distinct (map fst secs) \<Longrightarrow> distinct (map fst (add_count k n secs))"
proof (induction secs)
  case Nil
  then show ?case by simp
next
  case (Cons kv secs)
  obtain k' v where kv: "kv = (k', v)" by (cases kv)
  have "fst ` set (add_count k n secs) = insert k (fst ` set secs)" by (rule keys_add_count)
  with Cons show ?case by (auto simp: kv)
qed

lemma upt_Suc_shift: "[0..<Suc n] = 0 # map Suc [0..<n]"
  by (simp add: upt_conv_Cons map_Suc_upt del: upt_Suc)

lemma estimate_loop_count:
  assumes "0 \<le> q"
  shows "count_of label (estimate_loop q rm i names secs)
           = count_of label secs
             + sum_list (map (\<lambda>j. if names ! j @ '' (estimated)'' = label
                                   then q + (if int (i + j) < rm then 1 else 0) else 0)
                          [0..<length names])"
proof (induction names arbitrary: i secs)
  case Nil
  then show ?case by simp
next
  case (Cons n names)
  define g where "g = (\<lambda>j. q + (if int (i + j) < rm then 1 else 0))"
  define secs' where
    "secs' = (if g 0 > 0 then add_count (n @ '' (estimated)'') (g 0) secs else secs)"
  have "0 \<le> g 0" using assms by (simp add: g_def)
  then have first: "count_of label secs'
      = count_of label secs + (if n @ '' (estimated)'' = label then g 0 else 0)"
    by (auto simp: secs'_def count_of_add_count)
  have step: "estimate_loop q rm i (n # names) secs = estimate_loop q rm (Suc i) names secs'"
    by (simp add: g_def secs'_def Let_def)
  have rest: "count_of label (estimate_loop q rm (Suc i) names secs')
      = count_of label secs'
        + sum_list (map (\<lambda>j. if names ! j @ '' (estimated)'' = label then g (Suc j) else 0)
                     [0..<length names])"
    using Cons.IH [of "Suc i" secs'] unfolding g_def add_Suc_shift .
  have "count_of label (estimate_loop q rm i (n # names) secs)
      = count_of label secs
        + sum_list (map (\<lambda>j. if (n # names) ! j @ '' (estimated)'' = label then g j else 0)
                     [0..<length (n # names)])"
    unfolding step rest first by (simp add: upt_Suc_shift comp_def del: upt_Suc)
  then show ?case unfolding g_def .
qed

lemma estimate_loop_labels:
  "set (map fst (estimate_loop q rm i names secs))
     = set (map fst secs)
       \<union> set (map (\<lambda>j. names ! j @ '' (estimated)'')
             (filter (\<lambda>j. 0 < q + (if int (i + j) < rm then 1 else 0))
                [0..<length names]))"
proof (induction names arbitrary: i secs)
  case Nil
  then show ?case by simp
next
  case (Cons n names)
  define g where "g = (\<lambda>j. q + (if int (i + j) < rm then 1 else 0))"
  define secs' where
    "secs' = (if g 0 > 0 then add_count (n @ '' (estimated)'') (g 0) secs else secs)"
  have first: "set (map fst secs')
      = set (map fst secs) \<union> (if 0 < g 0 then {n @ '' (estimated)''} else {})"
    using keys_add_count [of "n @ '' (estimated)''" "g 0" secs] by (auto simp: secs'_def)
  have step: "estimate_loop q rm i (n # names) secs = estimate_loop q rm (Suc i) names secs'"
    by (simp add: g_def secs'_def Let_def)
  have rest: "set (map fst (estimate_loop q rm (Suc i) names secs'))
      = set (map fst secs')
        \<union> set (map (\<lambda>j. names ! j @ '' (estimated)'')
              (filter (\<lambda>j. 0 < g (Suc j)) [0..<length names]))"
    using Cons.IH [of "Suc i" secs'] unfolding g_def add_Suc_shift .
  have shift: "map (\<lambda>j. (n # names) ! j @ '' (estimated)'')
        (filter (\<lambda>j. 0 < g j) (map Suc [0..<length names]))
      = map (\<lambda>j. names ! j @ '' (estimated)'')
          (filter (\<lambda>j. 0 < g (Suc j)) [0..<length names])"
    by (simp add: filter_map comp_def)
  have "set (map fst (estimate_loop q rm i (n # names) secs))
      = set (map fst secs)
        \<union> set (map (\<lambda>j. (n # names) ! j @ '' (estimated)'')
              (filter (\<lambda>j. 0 < g j) [0..<length (n # names)]))"
  proof (cases "0 < g 0")
    case True
    have "[0..<length (n # names)] = 0 # map Suc [0..<length names]"
      using upt_Suc_shift [of "length names"] by simp
    then have "map (\<lambda>j. (n # names) ! j @ '' (estimated)'')
          (filter (\<lambda>j. 0 < g j) [0..<length (n # names)])
        = (n @ '' (estimated)'')
          # map (\<lambda>j. names ! j @ '' (estimated)'')
              (filter (\<lambda>j. 0 < g (Suc j)) [0..<length names])"
      using True shift by simp
    then show ?thesis unfolding step rest first using True by auto
  next
    case False
    have "[0..<length (n # names)] = 0 # map Suc [0..<length names]"
      using upt_Suc_shift [of "length names"] by simp
    then have "map (\<lambda>j. (n # names) ! j @ '' (estimated)'')
          (filter (\<lambda>j. 0 < g j) [0..<length (n # names)])
        = map (\<lambda>j. names ! j @ '' (estimated)'')
              (filter (\<lambda>j. 0 < g (Suc j)) [0..<length names])"
      using False shift by simp
    then show ?thesis unfolding step rest first using False by auto
  qed
  then show ?case unfolding g_def .
qed

lemma estimate_loop_distinct:
  "distinct (map fst secs) \<Longrightarrow> distinct (map fst (estimate_loop q rm i names secs))"
  by (induction names arbitrary: i secs) (simp_all add: Let_def distinct_add_count)


lemma estimate_loop_take:
  assumes "0 \<le> fe" "names \<noteq> []"
  shows "count_of label
           (estimate_loop (fe div int (length names)) (fe mod int (length names)) 0
              (take 5 names) secs)
           = count_of label secs
             + sum_list (map (\<lambda>i. if estimated_label (names ! i) = label
                                   then estimated_share fe (length names) i else 0)
                          [0..<min 5 (length names)])"
    and "set (map fst
           (estimate_loop (fe div int (length names)) (fe mod int (length names)) 0
              (take 5 names) secs))
           = set (map fst secs)
             \<union> set (map (\<lambda>i. estimated_label (names ! i))
                   (filter (\<lambda>i. 0 < estimated_share fe (length names) i)
                      [0..<min 5 (length names)]))"
proof -
  let ?n = "length names"
  have q: "0 \<le> fe div int ?n"
    using assms by (simp add: pos_imp_zdiv_nonneg_iff)
  have len: "length (take 5 names) = min 5 ?n" by simp
  have share: "fe div int ?n + (if int (0 + j) < fe mod int ?n then 1 else 0)
      = estimated_share fe ?n j" for j
    by (simp add: estimated_share_def)
  have counted: "map (\<lambda>j. if take 5 names ! j @ '' (estimated)'' = label
                  then estimated_share fe ?n j else 0) [0..<min 5 ?n]
      = map (\<lambda>i. if estimated_label (names ! i) = label
                  then estimated_share fe ?n i else 0) [0..<min 5 ?n]"
    by (rule map_cong) (simp_all add: estimated_label_def)
  show "count_of label
           (estimate_loop (fe div int ?n) (fe mod int ?n) 0 (take 5 names) secs)
           = count_of label secs
             + sum_list (map (\<lambda>i. if estimated_label (names ! i) = label
                                   then estimated_share fe ?n i else 0)
                          [0..<min 5 ?n])"
    using estimate_loop_count [OF q, of label "fe mod int ?n" 0 "take 5 names" secs]
    unfolding len share counted .
  have labelled: "map (\<lambda>j. take 5 names ! j @ '' (estimated)'')
          (filter (\<lambda>i. 0 < estimated_share fe ?n i) [0..<min 5 ?n])
      = map (\<lambda>i. estimated_label (names ! i))
          (filter (\<lambda>i. 0 < estimated_share fe ?n i) [0..<min 5 ?n])"
    by (rule map_cong) (simp_all add: estimated_label_def)
  show "set (map fst
           (estimate_loop (fe div int ?n) (fe mod int ?n) 0 (take 5 names) secs))
           = set (map fst secs)
             \<union> set (map (\<lambda>i. estimated_label (names ! i))
                   (filter (\<lambda>i. 0 < estimated_share fe ?n i) [0..<min 5 ?n]))"
    using estimate_loop_labels [of "fe div int ?n" "fe mod int ?n" 0 "take 5 names" secs]
    unfolding len share labelled .
qed

lemma estimated_label_inj: "estimated_label a = estimated_label b \<longleftrightarrow> a = b"
  by (simp add: estimated_label_def)

lemma sum_list_single:
  assumes "i < k" and "\<And>j. j < k \<Longrightarrow> (P j \<longleftrightarrow> j = i)"
  shows "sum_list (map (\<lambda>j. if P j then f j else (0::int)) [0..<k]) = f i"
proof -
  have "sum_list (map (\<lambda>j. if P j then f j else 0) [0..<k])
      = (\<Sum>j\<in>{0..<k}. if P j then f j else 0)"
    by (simp add: interv_sum_list_conv_sum_set_nat)
  also have "\<dots> = (\<Sum>j\<in>{0..<k}. if j = i then f j else 0)"
    using assms(2) by (intro sum.cong) auto
  also have "\<dots> = f i" using assms(1) by simp
  finally show ?thesis .
qed

lemma sum_list_none:
  assumes "\<And>j. j < k \<Longrightarrow> \<not> P j"
  shows "sum_list (map (\<lambda>j. if P j then f j else (0::int)) [0..<k]) = 0"
proof -
  have "sum_list (map (\<lambda>j. if P j then f j else 0) [0..<k])
      = (\<Sum>j\<in>{0..<k}. if P j then f j else 0)"
    by (simp add: interv_sum_list_conv_sum_set_nat)
  also have "\<dots> = (\<Sum>j\<in>{0..<k}. 0)"
    using assms by (intro sum.cong) auto
  finally show ?thesis by simp
qed

text \<open>
  C4 as amended: in the summary tier, for a run with \<open>failed + error > 0\<close>, section fetching
  enabled, a suite id, and a section list with \<open>n > 0\<close> named sections, the share of the
  section of index \<open>i\<close> is \<open>(failed + error) div n\<close>, one more for \<open>i < (failed + error) mod n\<close>,
  and the shares of the first five sections, and of no other, are added under the labels
  \<open><name> (estimated)\<close>. For every label, the count under it grows by the shares of the
  sections among the first five that bear it; when the first five names are distinct, the
  count under the label of each of them grows by its own share; the count under any other
  label is unchanged. A share of 0 adds no label, so the labels after the estimate are those
  before it and the estimated labels of the first five sections with a positive share, each
  label once. So the counts attributed add up to \<open>failed + error\<close> when the suite has at
  most five named sections, and to
  \<open>5 * ((failed + error) div n) + min 5 ((failed + error) mod n)\<close> when it has more.
\<close>

theorem estimate_distribution:
  assumes "fetch_sections" and "suite_id r \<noteq> 0"
    and "sections_of a project_id (suite_id r) = Inr sections_list"
    and "section_names_of sections_list = names" and "names \<noteq> []" and "0 < fe"
  shows "count_of label (summary_sections fetch_sections a r fe secs)
           = count_of label secs
             + sum_list (map (\<lambda>i. if estimated_label (names ! i) = label
                                   then estimated_share fe (length names) i else 0)
                          [0..<min 5 (length names)])
         \<and> (distinct (take 5 names) \<and> k < min 5 (length names)
            \<longrightarrow> count_of (estimated_label (names ! k))
                  (summary_sections fetch_sections a r fe secs)
                = count_of (estimated_label (names ! k)) secs
                  + estimated_share fe (length names) k)
         \<and> (label \<notin> estimated_label ` set (take 5 names)
            \<longrightarrow> count_of label (summary_sections fetch_sections a r fe secs)
                = count_of label secs)
         \<and> set (map fst (summary_sections fetch_sections a r fe secs))
             = set (map fst secs)
               \<union> set (map (\<lambda>i. estimated_label (names ! i))
                     (filter (\<lambda>i. 0 < estimated_share fe (length names) i)
                        [0..<min 5 (length names)]))
         \<and> (distinct (map fst secs)
            \<longrightarrow> distinct (map fst (summary_sections fetch_sections a r fe secs)))
         \<and> sections_total (summary_sections fetch_sections a r fe secs)
             = sections_total secs
               + (if length names \<le> 5 then fe
                  else 5 * (fe div int (length names)) + min 5 (fe mod int (length names)))"
proof -
  let ?n = "length names"
  let ?result = "summary_sections fetch_sections a r fe secs"
  have ne: "sections_list \<noteq> []" using assms(4,5) by (auto simp: section_names_of_def)
  have result: "?result
      = estimate_loop (fe div int ?n) (fe mod int ?n) 0 (take 5 names) secs"
    using assms ne by (simp add: summary_sections_def Let_def)
  have fe: "0 \<le> fe" using assms(6) by simp
  have counts: "count_of l ?result
      = count_of l secs
        + sum_list (map (\<lambda>i. if estimated_label (names ! i) = l
                              then estimated_share fe ?n i else 0) [0..<min 5 ?n])" for l
    unfolding result by (rule estimate_loop_take(1) [OF fe assms(5)])
  have one: "count_of (estimated_label (names ! k)) ?result
      = count_of (estimated_label (names ! k)) secs + estimated_share fe ?n k"
    if d: "distinct (take 5 names)" and k: "k < min 5 ?n"
  proof -
    have "(estimated_label (names ! j) = estimated_label (names ! k)) \<longleftrightarrow> j = k"
      if j: "j < min 5 ?n" for j
    proof -
      have jk: "j < length (take 5 names)" "k < length (take 5 names)"
        using j k by simp_all
      have "names ! j = take 5 names ! j" "names ! k = take 5 names ! k"
        using j k by simp_all
      then have "(names ! j = names ! k) \<longleftrightarrow> (take 5 names ! j = take 5 names ! k)"
        by (simp only:)
      also have "\<dots> \<longleftrightarrow> j = k"
        by (rule nth_eq_iff_index_eq [OF d jk])
      finally show ?thesis by (simp only: estimated_label_inj)
    qed
    then have "sum_list (map (\<lambda>i. if estimated_label (names ! i) = estimated_label (names ! k)
                              then estimated_share fe ?n i else 0) [0..<min 5 ?n])
        = estimated_share fe ?n k"
      using k by (intro sum_list_single) simp_all
    then show ?thesis using counts [of "estimated_label (names ! k)"] by simp
  qed
  have none: "count_of label ?result = count_of label secs"
    if l: "label \<notin> estimated_label ` set (take 5 names)"
  proof -
    have "estimated_label (names ! j) \<noteq> label" if j: "j < min 5 ?n" for j
    proof -
      have "names ! j = take 5 names ! j" using j by simp
      moreover have "take 5 names ! j \<in> set (take 5 names)"
        using j by (intro nth_mem) simp
      ultimately show ?thesis using l by auto
    qed
    then have "sum_list (map (\<lambda>i. if estimated_label (names ! i) = label
                              then estimated_share fe ?n i else 0) [0..<min 5 ?n]) = 0"
      by (intro sum_list_none) simp
    then show ?thesis using counts [of label] by simp
  qed
  have labels: "set (map fst ?result)
      = set (map fst secs)
        \<union> set (map (\<lambda>i. estimated_label (names ! i))
              (filter (\<lambda>i. 0 < estimated_share fe ?n i) [0..<min 5 ?n]))"
    unfolding result by (rule estimate_loop_take(2) [OF fe assms(5)])
  have dist: "distinct (map fst ?result)" if "distinct (map fst secs)"
    unfolding result using that by (rule estimate_loop_distinct)
  have total: "sections_total ?result
      = sections_total secs
        + (if ?n \<le> 5 then fe else 5 * (fe div int ?n) + min 5 (fe mod int ?n))"
    using summary_sections_total [OF assms(1-3), of fe secs] assms(4,5) fe
    by (simp add: Let_def)
  show ?thesis
    using counts [of label] one none labels dist total by blast
qed

theorem estimate_distribution_witness:
  "count_of ''s1 (estimated)'' (summary_sections True two_sections c9300_run 5 [(''old'', 1)]) = 3
   \<and> count_of ''s2 (estimated)'' (summary_sections True two_sections c9300_run 5 [(''old'', 1)]) = 2
   \<and> count_of ''old'' (summary_sections True two_sections c9300_run 5 [(''old'', 1)]) = 1
   \<and> set (map fst (summary_sections True two_sections c9300_run 5 [(''old'', 1)]))
       = {''s1 (estimated)'', ''s2 (estimated)'', ''old''}
   \<and> distinct (map fst (summary_sections True two_sections c9300_run 5 [(''old'', 1)]))
   \<and> sections_total (summary_sections True two_sections c9300_run 5 [(''old'', 1)]) = 6
   \<and> count_of ''s6 (estimated)'' (summary_sections True six_sections c9300_run 8 []) = 0
   \<and> sections_total (summary_sections True six_sections c9300_run 8 []) = 7"
proof -
  have two: "sections_of two_sections project_id (suite_id c9300_run)
               = Inr [Dict (1, ''s1''), NotADict, Dict (2, ''s2'')]"
    "section_names_of [Dict (1, ''s1''), NotADict, Dict (2, ''s2'')] = [''s1'', ''s2'']"
    and six: "sections_of six_sections project_id (suite_id c9300_run)
               = Inr [Dict (1, ''s1''), Dict (2, ''s2''), Dict (3, ''s3''),
                   Dict (4, ''s4''), Dict (5, ''s5''), Dict (6, ''s6'')]"
    "section_names_of [Dict (1, ''s1''), Dict (2, ''s2''), Dict (3, ''s3''),
                   Dict (4, ''s4''), Dict (5, ''s5''), Dict (6, ''s6'')]
       = [''s1'', ''s2'', ''s3'', ''s4'', ''s5'', ''s6'']"
    and suite: "suite_id c9300_run \<noteq> 0"
    by (simp_all add: two_sections_def six_sections_def section_names_of_def c9300_run_def)
  have upt: "[0..<2] = [0, Suc 0]" "[0..<5] = [0, 1, 2, 3, 4]"
    by (simp_all add: upt_rec)
  note first = estimate_distribution [where label = "''old''" and k = 0 and fe = 5
      and secs = "[(''old'', 1)]", OF TrueI suite two]
  note second = estimate_distribution [where label = "''old''" and k = 1 and fe = 5
      and secs = "[(''old'', 1)]", OF TrueI suite two]
  note sixth = estimate_distribution [where label = "''s6 (estimated)''" and k = 0
      and fe = 8 and secs = "[]", OF TrueI suite six]
  show ?thesis
    using first second sixth
    by (simp add: estimated_label_def estimated_share_def sections_total_def upt)
qed


definition bucket_sum :: "(bucket \<Rightarrow> int) \<Rightarrow> (string \<times> platform_data) list \<Rightarrow> int" where
  "bucket_sum f ps = sum_list (map (\<lambda>(p, pd). f (single pd) + f (stack pd)) ps)"

definition overall_covers :: "build_data \<Rightarrow> bool" where
  "overall_covers bd =
     (bucket_sum passed (platforms bd) \<le> passed (overall bd)
      \<and> bucket_sum failed (platforms bd) \<le> failed (overall bd)
      \<and> bucket_sum error (platforms bd) \<le> error (overall bd))"

lemma bucket_sum_update:
  assumes "\<And>b. f (g b) = f b + c" and "f empty_bucket = 0"
  shows "bucket_sum f (update_platform p (update_device dt g) ps)
           = bucket_sum f ps + (if dt = ''single'' \<or> dt = ''stack'' then c else 0)"
proof (induction ps)
  case Nil
  show ?case
    using assms by (simp add: bucket_sum_def update_device_def empty_platform_def)
next
  case (Cons kv ps)
  obtain k v where kv: "kv = (k, v)" by (cases kv)
  show ?case
    using Cons.IH assms(1)
    by (cases "k = p") (auto simp: kv bucket_sum_def update_device_def)
qed

lemma platforms_on_bucket [simp]:
  "platforms (on_bucket p dt g bd) = update_platform p (update_device dt g) (platforms bd)"
  "overall (on_bucket p dt g bd) = overall bd"
  by (simp_all add: on_bucket_def)

lemma covers_sections_only:
  assumes "overall_covers bd"
    and "\<And>b. passed (g b) = passed b \<and> failed (g b) = failed b \<and> error (g b) = error b"
  shows "overall_covers (on_bucket p dt g bd)"
proof -
  have "bucket_sum passed (update_platform p (update_device dt g) (platforms bd))
          = bucket_sum passed (platforms bd)"
    "bucket_sum failed (update_platform p (update_device dt g) (platforms bd))
          = bucket_sum failed (platforms bd)"
    "bucket_sum error (update_platform p (update_device dt g) (platforms bd))
          = bucket_sum error (platforms bd)"
    using bucket_sum_update [of passed g 0 p dt "platforms bd"]
      bucket_sum_update [of failed g 0 p dt "platforms bd"]
      bucket_sum_update [of error g 0 p dt "platforms bd"] assms(2)
    by (simp_all add: empty_bucket_def)
  with assms(1) show ?thesis by (simp add: overall_covers_def)
qed

lemma covers_add_section: "overall_covers bd \<Longrightarrow> overall_covers (add_section r label n bd)"
  unfolding add_section_def by (rule covers_sections_only) simp_all

lemma covers_add_overall:
  assumes "overall_covers bd" and "0 \<le> passed c" "0 \<le> failed c" "0 \<le> error c"
  shows "overall_covers (add_overall c bd)"
  using assms by (simp add: overall_covers_def add_overall_def)

lemma covers_add_platform:
  assumes "overall_covers bd" and "0 \<le> passed c" "0 \<le> failed c" "0 \<le> error c"
  shows "overall_covers (add_platform r c (add_overall c bd))"
proof (cases "classified r")
  case False
  then show ?thesis using covers_add_overall [OF assms] by (simp add: add_platform_def)
next
  case True
  let ?g = "\<lambda>b :: bucket. b\<lparr>passed := passed b + passed c, failed := failed b + failed c,
                  error := error b + error c\<rparr>"
  have dt: "device_type r = ''single'' \<or> device_type r = ''stack''"
    using True by (auto simp: classified_def)
  have "bucket_sum passed (update_platform (platform r) (update_device (device_type r) ?g)
            (platforms bd)) = bucket_sum passed (platforms bd) + passed c"
    "bucket_sum failed (update_platform (platform r) (update_device (device_type r) ?g)
            (platforms bd)) = bucket_sum failed (platforms bd) + failed c"
    "bucket_sum error (update_platform (platform r) (update_device (device_type r) ?g)
            (platforms bd)) = bucket_sum error (platforms bd) + error c"
    using bucket_sum_update [of passed ?g "passed c" "platform r" "device_type r" "platforms bd"]
      bucket_sum_update [of failed ?g "failed c" "platform r" "device_type r" "platforms bd"]
      bucket_sum_update [of error ?g "error c" "platform r" "device_type r" "platforms bd"] dt
    by (simp_all add: empty_bucket_def)
  then show ?thesis
    using True assms(1) by (simp add: add_platform_def overall_covers_def add_overall_def)
qed

lemma tally_nonneg:
  "0 \<le> passed t \<and> 0 \<le> failed t \<and> 0 \<le> error t
   \<Longrightarrow> 0 \<le> passed (tally x t) \<and> 0 \<le> failed (tally x t) \<and> 0 \<le> error (tally x t)"
  by (cases "(x, t)" rule: tally.cases) auto

lemma fold_tally_nonneg:
  "0 \<le> passed t \<and> 0 \<le> failed t \<and> 0 \<le> error t
   \<Longrightarrow> 0 \<le> passed (fold tally xs t) \<and> 0 \<le> failed (fold tally xs t)
       \<and> 0 \<le> error (fold tally xs t)"
proof (induction xs arbitrary: t)
  case Nil
  then show ?case by simp
next
  case (Cons x xs)
  from tally_nonneg [OF Cons.prems] show ?case by (simp add: Cons.IH)
qed

lemma count_results_nonneg:
  "0 \<le> passed (count_results xs) \<and> 0 \<le> failed (count_results xs)
   \<and> 0 \<le> error (count_results xs)"
  unfolding count_results_def by (rule fold_tally_nonneg) (simp add: zero_counts_def)

lemma covers_fold_add_section:
  "overall_covers bd \<Longrightarrow> overall_covers (fold (\<lambda>(n, c). add_section r n c) xs bd)"
  by (induction xs arbitrary: bd) (auto simp: covers_add_section)

lemma covers_map_sections:
  "overall_covers bd \<Longrightarrow> overall_covers (map_sections a r results fe bd)"
  by (auto simp: map_sections_def Let_def covers_add_section covers_fold_add_section
      split: sum.splits)

lemma covers_detail_tier:
  assumes "overall_covers bd"
  shows "overall_covers (detail_tier fetch_sections a r results bd)"
proof -
  have "overall_covers (add_platform r (count_results results)
          (add_overall (count_results results) bd))"
    using count_results_nonneg [of results] assms by (simp add: covers_add_platform)
  then show ?thesis
    by (simp add: detail_tier_def Let_def covers_map_sections covers_add_section)
qed

lemma covers_summary_tier:
  assumes "overall_covers bd"
    and "0 \<le> passed_count d" "0 \<le> failed_count d" "0 \<le> custom_status2_count d"
  shows "overall_covers (summary_tier fetch_sections a r d bd)"
proof -
  have "overall_covers (add_platform r (summary_counts d) (add_overall (summary_counts d) bd))"
    using assms by (simp add: covers_add_platform summary_counts_def)
  then show ?thesis
    by (simp add: summary_tier_def Let_def covers_sections_only)
qed

lemma covers_process_run:
  assumes "\<And>i d. run_details_of a i = Inr d
             \<Longrightarrow> 0 \<le> passed_count d \<and> 0 \<le> failed_count d \<and> 0 \<le> custom_status2_count d"
    and "overall_covers bd"
  shows "overall_covers (process_run fetch_sections force_summary_only a r bd)"
proof (cases "run_details_of a (run_id r)")
  case (Inl e)
  then show ?thesis using assms(2) by (simp add: process_run_def)
next
  case (Inr d)
  from assms(1) [OF Inr] assms(2) show ?thesis
    by (simp add: process_run_def Inr Let_def covers_detail_tier covers_summary_tier)
qed

lemma covers_process_runs:
  assumes "\<And>i d. run_details_of a i = Inr d
             \<Longrightarrow> 0 \<le> passed_count d \<and> 0 \<le> failed_count d \<and> 0 \<le> custom_status2_count d"
  shows "overall_covers bd
         \<Longrightarrow> overall_covers (process_runs fetch_sections force_summary_only a runs bd)"
  unfolding process_runs_def
  by (induction runs arbitrary: bd) (simp_all add: covers_process_run [OF assms])

lemma covers_process_plans:
  assumes "\<And>i d. run_details_of a i = Inr d
             \<Longrightarrow> 0 \<le> passed_count d \<and> 0 \<le> failed_count d \<and> 0 \<le> custom_status2_count d"
  shows "overall_covers bd
         \<Longrightarrow> overall_covers (fold (process_plan fetch_sections force_summary_only a) plans bd)"
proof (induction plans arbitrary: bd)
  case Nil
  then show ?case by simp
next
  case (Cons p plans)
  have "overall_covers (process_plan fetch_sections force_summary_only a p bd)"
    using Cons.prems covers_process_runs [OF assms]
    by (simp add: process_plan_def split: sum.splits)
  then show ?case by (simp add: Cons.IH)
qed

lemma covers_new_build_data: "overall_covers (new_build_data n d)"
  by (simp add: overall_covers_def new_build_data_def zero_counts_def bucket_sum_def)

lemma unclassified_run_platforms:
  "\<not> classified r
   \<Longrightarrow> platforms (process_run fetch_sections force_summary_only a r bd) = platforms bd"
  by (simp add: process_run_def detail_tier_def summary_tier_def add_platform_def
      add_overall_def Let_def split: sum.splits)

text \<open>
  C6: the counts that the API reports for a run are not negative. Then for each of passed,
  failed and error the overall count is at least the sum over all platform and device
  buckets: in the finished record of a build, after every plan, after every run, and between
  the statements that add a run's counts to the overall counts and to its bucket. A run with
  an unknown platform or device type leaves every bucket as it was. (A build without plans
  yields no record.)
\<close>

theorem overall_covers_platforms:
  assumes "\<And>i d. run_details_of a i = Inr d
             \<Longrightarrow> 0 \<le> passed_count d \<and> 0 \<le> failed_count d \<and> 0 \<le> custom_status2_count d"
  shows "(\<forall>bd. process_build fetch_sections force_summary_only a n d plans = Some bd
               \<longrightarrow> overall_covers bd)
         \<and> (\<forall>k \<le> length plans.
               overall_covers (fold (process_plan fetch_sections force_summary_only a)
                 (take k plans) (new_build_data n d)))
         \<and> (\<forall>bd runs k. overall_covers bd \<and> k \<le> length runs
               \<longrightarrow> overall_covers
                     (process_runs fetch_sections force_summary_only a (take k runs) bd))
         \<and> (\<forall>bd r c. overall_covers bd \<and> 0 \<le> passed c \<and> 0 \<le> failed c \<and> 0 \<le> error c
               \<longrightarrow> overall_covers (add_overall c bd)
                   \<and> overall_covers (add_platform r c (add_overall c bd)))
         \<and> (\<forall>bd r. \<not> classified r
               \<longrightarrow> platforms (process_run fetch_sections force_summary_only a r bd)
                     = platforms bd)"
  using covers_process_plans [OF assms covers_new_build_data]
    covers_process_runs [OF assms] covers_add_overall covers_add_platform
    unclassified_run_platforms
  by (auto simp add: process_build_def)

theorem overall_covers_platforms_witness:
  "process_build True False six_sections ''b'' ''2025-06-02'' [1] \<noteq> None
   \<and> overall_covers (the (process_build True False six_sections ''b'' ''2025-06-02'' [1]))
   \<and> passed (overall (the (process_build True False six_sections ''b'' ''2025-06-02'' [1])))
       = 8
   \<and> bucket_sum passed
        (platforms (the (process_build True False six_sections ''b'' ''2025-06-02'' [1]))) = 4"
proof -
  let ?built = "\<lparr>name = Some ''b'', date = Some ''2025-06-02'',
        overall = \<lparr>passed = 8, failed = 8, error = 4, blocked = 0, retest = 0, skipped = 0\<rparr>,
        platforms =
          [(''C9300'',
            \<lparr>single = \<lparr>passed = 4, failed = 4, error = 2,
                 sections = [(''s1 (estimated)'', 1), (''s2 (estimated)'', 1),
                   (''s3 (estimated)'', 1), (''s4 (estimated)'', 1),
                   (''s5 (estimated)'', 1)]\<rparr>,
             stack = \<lparr>passed = 0, failed = 0, error = 0, sections = []\<rparr>\<rparr>)]\<rparr>"
  have built: "process_build True False six_sections ''b'' ''2025-06-02'' [1] = Some ?built"
    by (simp add: process_build_def process_plan_def process_runs_def process_run_def
        six_sections_def c9300_run_def unclassified_run_def new_build_data_def
        summary_tier_def summary_counts_def add_platform_def add_overall_def classified_def
        on_bucket_def update_device_def zero_counts_def empty_platform_def empty_bucket_def
        summary_sections_def section_names_of_def project_id_def Let_def)
  have "\<And>i d. run_details_of six_sections i = Inr d
          \<Longrightarrow> 0 \<le> passed_count d \<and> 0 \<le> failed_count d \<and> 0 \<le> custom_status2_count d"
    by (auto simp: six_sections_def)
  from overall_covers_platforms [OF this, where fetch_sections = True
      and force_summary_only = False and n = "''b''" and d = "''2025-06-02''" and plans = "[1]"]
  have "\<forall>bd. process_build True False six_sections ''b'' ''2025-06-02'' [1] = Some bd
          \<longrightarrow> overall_covers bd"
    by (rule conjunct1)
  with built have "overall_covers ?built"
    by simp
  then show ?thesis by (simp add: built bucket_sum_def)
qed


section \<open>Cache store\<close>

subsection \<open>Decimal integers\<close>

function digits_of_nat :: "nat \<Rightarrow> string" where
  "digits_of_nat n =
     (if n < 10 then [''0123456789'' ! n]
      else digits_of_nat (n div 10) @ [''0123456789'' ! (n mod 10)])"
  by pat_completeness auto
termination
  by (relation "measure id") auto

declare digits_of_nat.simps [simp del]

definition str_int :: "int \<Rightarrow> string" where
  \<comment> \<open>\<open>str(n)\<close> for an integer, which is how the writer turns a count into a field.
      Python refuses to convert an integer of more than 4300 digits to a string or back;
      the properties below are stated for counts within that limit.\<close>
  "str_int n = (if n < 0 then CHR ''-'' # digits_of_nat (nat (- n)) else digits_of_nat (nat n))"

definition is_space :: "char \<Rightarrow> bool" where
  \<comment> \<open>the white space that \<open>int\<close> strips, on U+0000..U+00FF: the six ASCII characters
      tab, line feed, vertical tab, form feed, carriage return and space, and the two
      white-space characters of the upper half, U+0085 and U+00A0. The separators
      U+001C..U+001F, which \<open>str.strip\<close> removes, are not stripped by \<open>int\<close>.\<close>
  "is_space c =
     (let n = (of_char c :: nat) in
        (9 \<le> n \<and> n \<le> 13) \<or> n = 32 \<or> n = 133 \<or> n = 160)"

definition strip :: "string \<Rightarrow> string" where
  "strip s = rev (dropWhile is_space (rev (dropWhile is_space s)))"

fun digit_groups :: "string \<Rightarrow> bool" where
  \<comment> \<open>decimal digits, with single underscores between digits allowed\<close>
  "digit_groups [] = False"
| "digit_groups [c] = is_digit c"
| "digit_groups (c # d # cs) =
     (is_digit c \<and> (if d = CHR ''_'' then digit_groups cs else digit_groups (d # cs)))"

definition py_int :: "string \<Rightarrow> error + int" where
  \<comment> \<open>\<open>int(s)\<close> for a string: optional white space around an optional sign and decimal
      digits; \<open>ValueError\<close> otherwise\<close>
  "py_int s =
     (let t = strip s;
          negative = startswith t ''-'';
          ds = (if startswith t ''-'' \<or> startswith t ''+'' then tl t else t)
      in if digit_groups ds then
           Inr ((if negative then - 1 else 1)
                * int_of_digits (filter (\<lambda>c. c \<noteq> CHR ''_'') ds))
         else Inl ValueError)"

subsection \<open>Writing and reading CSV text\<close>

text \<open>
  The writer and the reader of the \<open>csv\<close> module in the default dialect: comma, double
  quote, doubled quotes inside a quoted field, minimal quoting, no escape character, line
  terminator CR LF, not strict. The file is written with \<open>newline=''\<close>, so it holds the
  text as written; it is read in the default text mode, which turns CR LF and a lone CR into
  LF before the reader sees the lines.
\<close>

definition CR :: char where "CR = CHR 0x0D"
definition LF :: char where "LF = CHR 0x0A"

definition needs_quotes :: "string \<Rightarrow> bool" where
  "needs_quotes s = list_ex (\<lambda>c. c = CHR '','' \<or> c = CHR 0x22 \<or> c = CR \<or> c = LF) s"

definition double_quotes :: "string \<Rightarrow> string" where
  "double_quotes s = concat (map (\<lambda>c. if c = CHR 0x22 then [c, c] else [c]) s)"

definition join_append :: "string \<Rightarrow> string" where
  \<comment> \<open>one field as the writer appends it to the record\<close>
  "join_append s = (if needs_quotes s then CHR 0x22 # double_quotes s @ [CHR 0x22] else s)"

fun join_fields :: "string list \<Rightarrow> string" where
  "join_fields [] = []"
| "join_fields [s] = join_append s"
| "join_fields (s # t # ts) = join_append s @ CHR '','' # join_fields (t # ts)"

definition writerow :: "string list \<Rightarrow> string" where
  \<comment> \<open>a row whose only field is empty is written as a pair of quotes\<close>
  "writerow row = (if row = [[]] then [CHR 0x22, CHR 0x22] else join_fields row) @ [CR, LF]"

fun universal_newlines :: "string \<Rightarrow> string" where
  "universal_newlines [] = []"
| "universal_newlines [c] = [if c = CR then LF else c]"
| "universal_newlines (c # d # cs) =
     (if c = CR \<and> d = LF then LF # universal_newlines cs
      else if c = CR then LF # universal_newlines (d # cs)
      else c # universal_newlines (d # cs))"

fun lines_of :: "string \<Rightarrow> string list" where
  \<comment> \<open>the lines of a text file, each with its line feed; the last one may lack it\<close>
  "lines_of [] = []"
| "lines_of (c # cs) =
     (if c = LF then [c] # lines_of cs
      else (case lines_of cs of [] \<Rightarrow> [[c]] | l # ls \<Rightarrow> (c # l) # ls))"

datatype parser_state =
  START_RECORD | START_FIELD | IN_FIELD | IN_QUOTED_FIELD | QUOTE_IN_QUOTED_FIELD | EAT_CRNL

record reader =
  state :: parser_state
  field :: string
  parsed :: "string list"

definition parse_reset :: reader where
  "parse_reset = \<lparr>state = START_RECORD, field = [], parsed = []\<rparr>"

definition field_limit :: nat where
  "field_limit = 131072"

definition parse_add_char :: "reader \<Rightarrow> char \<Rightarrow> error + reader" where
  "parse_add_char rd c =
     (if length (field rd) \<ge> field_limit then Inl CsvError
      else Inr (rd\<lparr>field := field rd @ [c]\<rparr>))"

definition parse_save_field :: "reader \<Rightarrow> reader" where
  "parse_save_field rd = rd\<lparr>parsed := parsed rd @ [field rd], field := []\<rparr>"

definition end_of_line :: "char option \<Rightarrow> bool" where
  \<comment> \<open>\<open>c == '\n' || c == '\r' || c == EOL\<close>; \<open>None\<close> is the mark EOL that the reader
      processes after the last character of each line\<close>
  "end_of_line c = (c = Some LF \<or> c = Some CR \<or> c = None)"

definition after_line :: "char option \<Rightarrow> parser_state" where
  "after_line c = (if c = None then START_RECORD else EAT_CRNL)"

definition start_field :: "reader \<Rightarrow> char option \<Rightarrow> error + reader" where
  "start_field rd c =
     (if end_of_line c then Inr ((parse_save_field rd)\<lparr>state := after_line c\<rparr>)
      else if c = Some (CHR 0x22) then Inr (rd\<lparr>state := IN_QUOTED_FIELD\<rparr>)
      else if c = Some (CHR '','') then Inr (parse_save_field rd)
      else (case parse_add_char rd (the c) of
              Inl e \<Rightarrow> Inl e
            | Inr rd' \<Rightarrow> Inr (rd'\<lparr>state := IN_FIELD\<rparr>)))"

definition parse_process_char :: "reader \<Rightarrow> char option \<Rightarrow> error + reader" where
  "parse_process_char rd c =
     (case state rd of
        START_RECORD \<Rightarrow>
          if c = None then Inr rd
          else if c = Some LF \<or> c = Some CR then Inr (rd\<lparr>state := EAT_CRNL\<rparr>)
          else start_field (rd\<lparr>state := START_FIELD\<rparr>) c
      | START_FIELD \<Rightarrow> start_field rd c
      | IN_FIELD \<Rightarrow>
          if end_of_line c then Inr ((parse_save_field rd)\<lparr>state := after_line c\<rparr>)
          else if c = Some (CHR '','') then Inr ((parse_save_field rd)\<lparr>state := START_FIELD\<rparr>)
          else parse_add_char rd (the c)
      | IN_QUOTED_FIELD \<Rightarrow>
          if c = None then Inr rd
          else if c = Some (CHR 0x22) then Inr (rd\<lparr>state := QUOTE_IN_QUOTED_FIELD\<rparr>)
          else parse_add_char rd (the c)
      | QUOTE_IN_QUOTED_FIELD \<Rightarrow>
          if c = Some (CHR 0x22) then
            (case parse_add_char rd (CHR 0x22) of
               Inl e \<Rightarrow> Inl e
             | Inr rd' \<Rightarrow> Inr (rd'\<lparr>state := IN_QUOTED_FIELD\<rparr>))
          else if c = Some (CHR '','') then Inr ((parse_save_field rd)\<lparr>state := START_FIELD\<rparr>)
          else if end_of_line c then Inr ((parse_save_field rd)\<lparr>state := after_line c\<rparr>)
          else (case parse_add_char rd (the c) of
                  Inl e \<Rightarrow> Inl e
                | Inr rd' \<Rightarrow> Inr (rd'\<lparr>state := IN_FIELD\<rparr>))
      | EAT_CRNL \<Rightarrow>
          if c = Some LF \<or> c = Some CR then Inr rd
          else if c = None then Inr (rd\<lparr>state := START_RECORD\<rparr>)
          else Inl CsvError)"

fun feed_line :: "reader \<Rightarrow> string \<Rightarrow> error + reader" where
  \<comment> \<open>the characters of one line, and then the mark EOL\<close>
  "feed_line rd [] = parse_process_char rd None"
| "feed_line rd (c # cs) =
     (case parse_process_char rd (Some c) of Inl e \<Rightarrow> Inl e | Inr rd' \<Rightarrow> feed_line rd' cs)"

fun reader_rows :: "reader \<Rightarrow> string list \<Rightarrow> string list list \<times> error option" where
  \<comment> \<open>the rows that iterating the reader yields from the lines of the file, and how the
      iteration ends: exhausted (\<open>None\<close>) or with an exception. A row is complete when a line
      ends in the state \<open>START_RECORD\<close>; the reader starts the next row afresh.\<close>
  "reader_rows rd [] =
     (if field rd \<noteq> [] \<or> state rd = IN_QUOTED_FIELD
      then ([parsed (parse_save_field rd)], None) else ([], None))"
| "reader_rows rd (line # rest) =
     (case feed_line rd line of
        Inl e \<Rightarrow> ([], Some e)
      | Inr rd' \<Rightarrow>
          if state rd' = START_RECORD then
            (let (rows, ending) = reader_rows parse_reset rest in (parsed rd' # rows, ending))
          else reader_rows rd' rest)"

definition csv_reader :: "string \<Rightarrow> string list list \<times> error option" where
  \<comment> \<open>\<open>csv.reader(f)\<close> for a file opened with \<open>open(csv_file, 'r')\<close>, given its content\<close>
  "csv_reader text = reader_rows parse_reset (lines_of (universal_newlines text))"

subsection \<open>Saving and loading a build\<close>

definition platform_rows :: "string \<times> platform_data \<Rightarrow> string list list" where
  "platform_rows kv =
     (case kv of (p, pd) \<Rightarrow>
        [[p, ''single'', str_int (passed (single pd)), str_int (failed (single pd)),
          str_int (error (single pd))],
         [p, ''stack'', str_int (passed (stack pd)), str_int (failed (stack pd)),
          str_int (error (stack pd))]])"

definition bucket_section_rows :: "string \<Rightarrow> string \<Rightarrow> bucket \<Rightarrow> string list list" where
  "bucket_section_rows p dt b =
     [[p, dt, s, str_int n]. (s, n) \<leftarrow> sections b, n > 0]"

definition section_rows :: "string \<times> platform_data \<Rightarrow> string list list" where
  "section_rows kv =
     (case kv of (p, pd) \<Rightarrow>
        bucket_section_rows p ''single'' (single pd) @ bucket_section_rows p ''stack'' (stack pd))"

definition build_rows :: "string \<Rightarrow> string \<Rightarrow> build_data \<Rightarrow> string list list" where
  \<comment> \<open>the rows that \<open>save_build_data_to_csv\<close> writes, in order\<close>
  "build_rows n d bd =
     [[''SUMMARY''], [''metric'', ''value''], [''name'', n], [''date'', d],
      [''passed'', str_int (passed (overall bd))],
      [''failed'', str_int (failed (overall bd))],
      [''error'', str_int (error (overall bd))],
      [''blocked'', str_int (blocked (overall bd))],
      [''retest'', str_int (retest (overall bd))],
      [''skipped'', str_int (skipped (overall bd))],
      [],
      [''PLATFORMS''], [''platform'', ''device_type'', ''passed'', ''failed'', ''error'']]
     @ concat (map platform_rows (platforms bd))
     @ [[], [''SECTIONS''], [''platform'', ''device_type'', ''section'', ''count'']]
     @ concat (map section_rows (platforms bd))"

definition save_build_data_to_csv :: "build_data \<Rightarrow> error + string" where
  \<comment> \<open>the content of the file written; \<open>KeyError\<close> for a record without a name or a date\<close>
  "save_build_data_to_csv bd =
     (case name bd of
        None \<Rightarrow> Inl KeyError
      | Some n \<Rightarrow>
          (case date bd of
             None \<Rightarrow> Inl KeyError
           | Some d \<Rightarrow> Inr (concat (map writerow (build_rows n d bd)))))"

datatype section_kind = Summary | Platforms | Sections

definition empty_build_data :: build_data where
  "empty_build_data = \<lparr>name = None, date = None, overall = zero_counts, platforms = []\<rparr>"

fun set_count :: "string \<Rightarrow> int \<Rightarrow> (string \<times> int) list \<Rightarrow> (string \<times> int) list" where
  \<comment> \<open>\<open>sections[k] = n\<close>\<close>
  "set_count k n [] = [(k, n)]"
| "set_count k n ((k', v) # kvs) =
     (if k' = k then (k', n) # kvs else (k', v) # set_count k n kvs)"

definition set_metric :: "string \<Rightarrow> int \<Rightarrow> overall_counts \<Rightarrow> overall_counts" where
  "set_metric metric v c =
     (if metric = ''passed'' then c\<lparr>passed := v\<rparr>
      else if metric = ''failed'' then c\<lparr>failed := v\<rparr>
      else if metric = ''error'' then c\<lparr>error := v\<rparr>
      else if metric = ''blocked'' then c\<lparr>blocked := v\<rparr>
      else if metric = ''retest'' then c\<lparr>retest := v\<rparr>
      else c\<lparr>skipped := v\<rparr>)"

definition summary_row :: "string list \<Rightarrow> build_data \<Rightarrow> error + build_data" where
  "summary_row row bd =
     (case row of
        metric # value # others \<Rightarrow>
          if metric = ''name'' then Inr (bd\<lparr>name := Some value\<rparr>)
          else if metric = ''date'' then Inr (bd\<lparr>date := Some value\<rparr>)
          else if metric \<in> set [''passed'', ''failed'', ''error'', ''blocked'', ''retest'',
                                 ''skipped''] then
            (case py_int value of
               Inl e \<Rightarrow> Inl e
             | Inr v \<Rightarrow> Inr (bd\<lparr>overall := set_metric metric v (overall bd)\<rparr>))
          else Inr bd
      | _ \<Rightarrow> Inl IndexError)"

definition known_device :: "string \<Rightarrow> bool" where
  "known_device dt = (dt = ''single'' \<or> dt = ''stack'')"

definition platform_row :: "string list \<Rightarrow> build_data \<Rightarrow> error + build_data" where
  \<comment> \<open>a row of five fields, or a row of four fields of the format without the error
      count; a row of another length is passed over\<close>
  "platform_row row bd =
     (if length row = 5 \<or> length row = 4 then
        (case py_int (row ! 2) of
           Inl e \<Rightarrow> Inl e
         | Inr p \<Rightarrow>
             if \<not> known_device (row ! 1) then Inl KeyError
             else (case py_int (row ! 3) of
                     Inl e \<Rightarrow> Inl e
                   | Inr f \<Rightarrow>
                       (case (if length row = 5 then py_int (row ! 4) else Inr 0) of
                          Inl e \<Rightarrow> Inl e
                        | Inr er \<Rightarrow>
                            Inr (on_bucket (row ! 0) (row ! 1)
                                   (\<lambda>b. b\<lparr>passed := p, failed := f, error := er\<rparr>) bd))))
      else Inr bd)"

definition section_row :: "string list \<Rightarrow> build_data \<Rightarrow> error + build_data" where
  "section_row row bd =
     (if length row = 4 then
        (case py_int (row ! 3) of
           Inl e \<Rightarrow> Inl e
         | Inr n \<Rightarrow>
             if \<not> known_device (row ! 1) then Inl KeyError
             else Inr (on_bucket (row ! 0) (row ! 1)
                         (\<lambda>b. b\<lparr>sections := set_count (row ! 2) n (sections b)\<rparr>) bd))
      else Inl ValueError)"

definition header_of :: "string list \<Rightarrow> section_kind option" where
  "header_of row =
     (if hd row = ''SUMMARY'' then Some Summary
      else if hd row = ''PLATFORMS'' then Some Platforms
      else if hd row = ''SECTIONS'' then Some Sections
      else None)"

fun load_rows ::
  "build_data \<Rightarrow> section_kind option \<Rightarrow> string list list \<Rightarrow> error option
     \<Rightarrow> error + build_data" where
  \<comment> \<open>the loop \<open>for row in reader\<close>; after a header row \<open>next(reader)\<close> takes the row that
      follows, and raises when there is none\<close>
  "load_rows bd current_section [] ending =
     (case ending of None \<Rightarrow> Inr bd | Some e \<Rightarrow> Inl e)"
| "load_rows bd current_section (row # rest) ending =
     (if row = [] then load_rows bd current_section rest ending
      else
        (case header_of row of
           Some kind \<Rightarrow>
             (case rest of
                [] \<Rightarrow> (case ending of None \<Rightarrow> Inl StopIteration | Some e \<Rightarrow> Inl e)
              | header # rest' \<Rightarrow> load_rows bd (Some kind) rest' ending)
         | None \<Rightarrow>
             (case (case current_section of
                      None \<Rightarrow> Inr bd
                    | Some Summary \<Rightarrow> summary_row row bd
                    | Some Platforms \<Rightarrow> platform_row row bd
                    | Some Sections \<Rightarrow> section_row row bd) of
                Inl e \<Rightarrow> Inl e
              | Inr bd' \<Rightarrow> load_rows bd' current_section rest ending)))"

definition load_build_data_from_csv :: "string \<Rightarrow> error + build_data" where
  \<comment> \<open>the record loaded from a file, given the content of the file\<close>
  "load_build_data_from_csv text =
     (case csv_reader text of (rows, ending) \<Rightarrow> load_rows empty_build_data None rows ending)"

section \<open>Properties of the cache store\<close>

subsection \<open>Counts survive the conversion to text and back\<close>

lemma digit_char: "k < 10 \<Longrightarrow> is_digit (''0123456789'' ! k) \<and> digit_val (''0123456789'' ! k) = int k"
proof -
  assume "k < 10"
  then have "k = 0 \<or> k = 1 \<or> k = 2 \<or> k = 3 \<or> k = 4 \<or> k = 5 \<or> k = 6
    \<or> k = 7 \<or> k = 8 \<or> k = 9"
    by presburger
  then show ?thesis
    by (elim disjE) (simp_all add: is_digit_def digit_val_def)
qed

lemma digits_of_nat_digits: "digits_of_nat n \<noteq> [] \<and> list_all is_digit (digits_of_nat n)"
proof (induction n rule: digits_of_nat.induct)
  case (1 n)
  show ?case
  proof (cases "n < 10")
    case True
    then show ?thesis by (subst (1 2) digits_of_nat.simps) (simp add: digit_char)
  next
    case False
    then show ?thesis
      using 1 by (subst (1 2) digits_of_nat.simps) (simp add: digit_char)
  qed
qed

lemma int_of_digits_snoc: "int_of_digits (xs @ [c]) = 10 * int_of_digits xs + digit_val c"
  by (simp add: int_of_digits_def)

lemma int_of_digits_of_nat: "int_of_digits (digits_of_nat n) = int n"
proof (induction n rule: digits_of_nat.induct)
  case (1 n)
  show ?case
  proof (cases "n < 10")
    case True
    then show ?thesis
      by (subst digits_of_nat.simps) (simp add: digit_char int_of_digits_def)
  next
    case False
    then have "int_of_digits (digits_of_nat n)
        = 10 * int (n div 10) + int (n mod 10)"
      using 1 by (subst digits_of_nat.simps) (simp add: int_of_digits_snoc digit_char)
    then show ?thesis by (simp add: zdiv_int zmod_int)
  qed
qed

lemma digit_groups_digits: "ds \<noteq> [] \<Longrightarrow> list_all is_digit ds \<Longrightarrow> digit_groups ds"
proof (induction ds rule: digit_groups.induct)
  case (3 c d cs)
  then have "d \<noteq> CHR ''_''" by (auto simp: is_digit_def)
  with 3 show ?case by simp
qed simp_all

lemma digits_no_underscore: "list_all is_digit ds \<Longrightarrow> filter (\<lambda>c. c \<noteq> CHR ''_'') ds = ds"
  by (induction ds) (auto simp: is_digit_def)

lemma digit_not_space: "is_digit c \<Longrightarrow> \<not> is_space c"
  by (auto simp: is_digit_def is_space_def)

lemma strip_id: "s \<noteq> [] \<Longrightarrow> \<not> is_space (hd s) \<Longrightarrow> \<not> is_space (last s) \<Longrightarrow> strip s = s"
proof -
  assume a: "s \<noteq> []" "\<not> is_space (hd s)" "\<not> is_space (last s)"
  then have "dropWhile is_space s = s" by (cases s) auto
  moreover have "dropWhile is_space (rev s) = rev s"
    using a by (cases "rev s") (auto simp: last_rev [symmetric] hd_rev)
  ultimately show ?thesis by (simp add: strip_def)
qed

lemma py_int_str_int: "py_int (str_int n) = Inr n"
proof -
  define ds where "ds = digits_of_nat (nat \<bar>n\<bar>)"
  have ds: "ds \<noteq> []" "list_all is_digit ds"
    using digits_of_nat_digits by (auto simp: ds_def)
  then have hd: "is_digit (hd ds)" and last: "is_digit (last ds)"
    by (auto simp: list_all_iff)
  have val: "int_of_digits ds = \<bar>n\<bar>"
    by (simp add: ds_def int_of_digits_of_nat)
  have groups: "digit_groups ds" "filter (\<lambda>c. c \<noteq> CHR ''_'') ds = ds"
    using ds by (simp_all add: digit_groups_digits digits_no_underscore)
  show ?thesis
  proof (cases "n < 0")
    case True
    then have s: "str_int n = CHR ''-'' # ds" by (simp add: str_int_def ds_def)
    have "\<not> is_space (CHR ''-'')" by (simp add: is_space_def)
    moreover have "\<not> is_space (last ds)" using last by (rule digit_not_space)
    ultimately have "strip (CHR ''-'' # ds) = CHR ''-'' # ds"
      using ds by (intro strip_id) simp_all
    then show ?thesis
      using True groups val by (simp add: py_int_def s Let_def)
  next
    case False
    then have s: "str_int n = ds" by (simp add: str_int_def ds_def)
    have st: "strip ds = ds"
      using ds hd last by (intro strip_id) (auto simp: digit_not_space)
    have "\<not> startswith ds ''-''" "\<not> startswith ds ''+''"
      using ds hd by (cases ds; auto simp: is_digit_def)+
    then show ?thesis
      using False groups val by (simp add: py_int_def s st Let_def)
  qed
qed

lemma str_int_chars: "c \<in> set (str_int n) \<Longrightarrow> is_digit c \<or> c = CHR ''-''"
  using digits_of_nat_digits [of "nat (- n)"] digits_of_nat_digits [of "nat n"]
  by (auto simp: str_int_def list_all_iff split: if_splits)

subsection \<open>The reader returns the rows that the writer wrote\<close>

definition read_text :: "reader \<Rightarrow> string \<Rightarrow> string list list \<times> error option" where
  "read_text rd t = reader_rows rd (lines_of t)"

lemma lines_of_nonempty: "cs \<noteq> [] \<Longrightarrow> lines_of cs \<noteq> []"
  by (cases cs) (auto split: list.splits)

lemma read_text_Nil: "read_text parse_reset [] = ([], None)"
  by (simp add: read_text_def parse_reset_def)

lemma read_text_char:
  assumes "c \<noteq> LF" "cs \<noteq> []"
  shows "read_text rd (c # cs)
           = (case parse_process_char rd (Some c) of
                Inl e \<Rightarrow> ([], Some e)
              | Inr rd' \<Rightarrow> read_text rd' cs)"
proof -
  obtain l ls where ls: "lines_of cs = l # ls"
    using lines_of_nonempty [OF assms(2)] by (cases "lines_of cs") auto
  show ?thesis
    using assms(1) by (simp add: read_text_def ls split: sum.splits)
qed

lemma read_text_LF:
  "read_text rd (LF # cs)
     = (case parse_process_char rd (Some LF) of
          Inl e \<Rightarrow> ([], Some e)
        | Inr rd1 \<Rightarrow>
            (case parse_process_char rd1 None of
               Inl e \<Rightarrow> ([], Some e)
             | Inr rd2 \<Rightarrow>
                 if state rd2 = START_RECORD then
                   (let (rows, ending) = read_text parse_reset cs in (parsed rd2 # rows, ending))
                 else read_text rd2 cs))"
  by (simp add: read_text_def split: sum.splits)


lemma special_chars [simp]:
  "LF \<noteq> CHR 0x22" "LF \<noteq> CHR '',''" "LF \<noteq> CR" "CR \<noteq> LF" "CHR 0x22 \<noteq> LF"
  "CHR '','' \<noteq> LF" "CR \<noteq> CHR 0x22" "CR \<noteq> CHR '',''" "CHR 0x22 \<noteq> CR"
  "CHR '','' \<noteq> CR"
  by (simp_all add: LF_def CR_def)

lemma double_quotes_simps:
  "double_quotes [] = []"
  "double_quotes (c # s) = (if c = CHR 0x22 then [c, c] else [c]) @ double_quotes s"
  by (simp_all add: double_quotes_def)

lemma read_quoted:
  assumes "length f + length s \<le> field_limit" and "rest \<noteq> []"
  shows "read_text \<lparr>state = IN_QUOTED_FIELD, field = f, parsed = ps\<rparr> (double_quotes s @ rest)
           = read_text \<lparr>state = IN_QUOTED_FIELD, field = f @ s, parsed = ps\<rparr> rest"
  using assms(1)
proof (induction s arbitrary: f)
  case Nil
  then show ?case by (simp add: double_quotes_def)
next
  case (Cons c s)
  have tail: "double_quotes s @ rest \<noteq> []" using assms(2) by simp
  have len: "length f < field_limit" "length (f @ [c]) + length s \<le> field_limit"
    using Cons.prems by simp_all
  note dq = double_quotes_simps
  consider (quote) "c = CHR 0x22" | (lf) "c = LF" | (other) "c \<noteq> CHR 0x22" "c \<noteq> LF"
    by blast
  then show ?case
  proof cases
    case quote
    then show ?thesis
      using Cons.IH [OF len(2)] tail len(1)
      by (simp add: dq read_text_char parse_process_char_def parse_add_char_def)
  next
    case lf
    then show ?thesis
      using Cons.IH [OF len(2)] len(1)
      by (simp add: dq read_text_LF parse_process_char_def parse_add_char_def)
  next
    case other
    then show ?thesis
      using Cons.IH [OF len(2)] tail len(1)
      by (simp add: dq read_text_char parse_process_char_def parse_add_char_def)
  qed
qed

lemma read_unquoted:
  assumes "\<not> needs_quotes s" and "length f + length s \<le> field_limit" and "rest \<noteq> []"
  shows "read_text \<lparr>state = IN_FIELD, field = f, parsed = ps\<rparr> (s @ rest)
           = read_text \<lparr>state = IN_FIELD, field = f @ s, parsed = ps\<rparr> rest"
  using assms(1,2)
proof (induction s arbitrary: f)
  case Nil
  then show ?case by simp
next
  case (Cons c s)
  have tail: "s @ rest \<noteq> []" using assms(3) by simp
  have c: "c \<noteq> CHR '',''" "c \<noteq> CHR 0x22" "c \<noteq> CR" "c \<noteq> LF" and s: "\<not> needs_quotes s"
    using Cons.prems(1) by (auto simp: needs_quotes_def)
  have len: "length f < field_limit" "length (f @ [c]) + length s \<le> field_limit"
    using Cons.prems(2) by simp_all
  show ?case
    using Cons.IH [OF s len(2)] tail len(1) c
    by (simp add: read_text_char parse_process_char_def parse_add_char_def end_of_line_def)
qed


lemma read_field_comma:
  assumes "st = START_FIELD \<or> st = START_RECORD" and "length s \<le> field_limit"
    and "rest \<noteq> []"
  shows "read_text \<lparr>state = st, field = [], parsed = ps\<rparr> (join_append s @ CHR '','' # rest)
           = read_text \<lparr>state = START_FIELD, field = [], parsed = ps @ [s]\<rparr> rest"
proof (cases "needs_quotes s")
  case True
  have "read_text \<lparr>state = st, field = [], parsed = ps\<rparr> (join_append s @ CHR '','' # rest)
      = read_text \<lparr>state = IN_QUOTED_FIELD, field = [], parsed = ps\<rparr>
          (double_quotes s @ CHR 0x22 # CHR '','' # rest)"
    using assms(1) True
    by (auto simp: join_append_def read_text_char parse_process_char_def start_field_def
        end_of_line_def)
  also have "\<dots> = read_text \<lparr>state = IN_QUOTED_FIELD, field = s, parsed = ps\<rparr>
      (CHR 0x22 # CHR '','' # rest)"
    using read_quoted [of "[]" s "CHR 0x22 # CHR '','' # rest" ps] assms(2) by simp
  also have "\<dots> = read_text \<lparr>state = START_FIELD, field = [], parsed = ps @ [s]\<rparr> rest"
    using assms(3)
    by (simp add: read_text_char parse_process_char_def parse_save_field_def)
  finally show ?thesis .
next
  case False
  show ?thesis
  proof (cases s)
    case Nil
    then show ?thesis
      using assms(1,3)
      by (auto simp: join_append_def needs_quotes_def read_text_char parse_process_char_def
          start_field_def end_of_line_def parse_save_field_def)
  next
    case (Cons c s')
    have c: "c \<noteq> CHR '',''" "c \<noteq> CHR 0x22" "c \<noteq> CR" "c \<noteq> LF" and s': "\<not> needs_quotes s'"
      using False Cons by (auto simp: needs_quotes_def)
    have lim: "0 < field_limit" by (simp add: field_limit_def)
    have "read_text \<lparr>state = st, field = [], parsed = ps\<rparr> (join_append s @ CHR '','' # rest)
        = read_text \<lparr>state = IN_FIELD, field = [c], parsed = ps\<rparr> (s' @ CHR '','' # rest)"
      using assms(1) False Cons c lim
      by (auto simp: join_append_def read_text_char parse_process_char_def start_field_def
          end_of_line_def parse_add_char_def)
    also have "\<dots> = read_text \<lparr>state = IN_FIELD, field = s, parsed = ps\<rparr> (CHR '','' # rest)"
      using read_unquoted [OF s', of "[c]" "CHR '','' # rest" ps] assms(2) Cons by simp
    also have "\<dots> = read_text \<lparr>state = START_FIELD, field = [], parsed = ps @ [s]\<rparr> rest"
      using assms(3)
      by (simp add: read_text_char parse_process_char_def parse_save_field_def end_of_line_def)
    finally show ?thesis .
  qed
qed

lemma read_field_end:
  assumes "st = START_FIELD \<or> (st = START_RECORD \<and> s \<noteq> [])" and "length s \<le> field_limit"
  shows "read_text \<lparr>state = st, field = [], parsed = ps\<rparr> (join_append s @ LF # rest)
           = (let (rows, ending) = read_text parse_reset rest in ((ps @ [s]) # rows, ending))"
proof (cases "needs_quotes s")
  case True
  have "read_text \<lparr>state = st, field = [], parsed = ps\<rparr> (join_append s @ LF # rest)
      = read_text \<lparr>state = IN_QUOTED_FIELD, field = [], parsed = ps\<rparr>
          (double_quotes s @ CHR 0x22 # LF # rest)"
    using assms(1) True
    by (auto simp: join_append_def read_text_char parse_process_char_def start_field_def
        end_of_line_def)
  also have "\<dots> = read_text \<lparr>state = IN_QUOTED_FIELD, field = s, parsed = ps\<rparr>
      (CHR 0x22 # LF # rest)"
    using read_quoted [of "[]" s "CHR 0x22 # LF # rest" ps] assms(2) by simp
  also have "\<dots> = (let (rows, ending) = read_text parse_reset rest
                    in ((ps @ [s]) # rows, ending))"
    by (simp add: read_text_char read_text_LF parse_process_char_def parse_save_field_def
        end_of_line_def after_line_def)
  finally show ?thesis .
next
  case False
  show ?thesis
  proof (cases s)
    case Nil
    then show ?thesis
      using assms(1)
      by (simp add: join_append_def needs_quotes_def read_text_LF parse_process_char_def
          start_field_def end_of_line_def parse_save_field_def after_line_def)
  next
    case (Cons c s')
    have c: "c \<noteq> CHR '',''" "c \<noteq> CHR 0x22" "c \<noteq> CR" "c \<noteq> LF" and s': "\<not> needs_quotes s'"
      using False Cons by (auto simp: needs_quotes_def)
    have lim: "0 < field_limit" by (simp add: field_limit_def)
    have "read_text \<lparr>state = st, field = [], parsed = ps\<rparr> (join_append s @ LF # rest)
        = read_text \<lparr>state = IN_FIELD, field = [c], parsed = ps\<rparr> (s' @ LF # rest)"
      using assms(1) False Cons c lim
      by (auto simp: join_append_def read_text_char parse_process_char_def start_field_def
          end_of_line_def parse_add_char_def)
    also have "\<dots> = read_text \<lparr>state = IN_FIELD, field = s, parsed = ps\<rparr> (LF # rest)"
      using read_unquoted [OF s', of "[c]" "LF # rest" ps] assms(2) Cons by simp
    also have "\<dots> = (let (rows, ending) = read_text parse_reset rest
                      in ((ps @ [s]) # rows, ending))"
      by (simp add: read_text_LF parse_process_char_def parse_save_field_def end_of_line_def
          after_line_def)
    finally show ?thesis .
  qed
qed

lemma read_fields:
  assumes "list_all (\<lambda>s. length s \<le> field_limit) row" and "row \<noteq> []"
    and "st = START_FIELD \<or> (st = START_RECORD \<and> row \<noteq> [[]])"
  shows "read_text \<lparr>state = st, field = [], parsed = ps\<rparr> (join_fields row @ LF # rest)
           = (let (rows, ending) = read_text parse_reset rest in ((ps @ row) # rows, ending))"
  using assms
proof (induction row arbitrary: st ps rule: join_fields.induct)
  case 1
  then show ?case by simp
next
  case (2 s)
  then show ?case using read_field_end [of st s ps rest] by simp
next
  case (3 s t ts)
  have "read_text \<lparr>state = st, field = [], parsed = ps\<rparr> (join_fields (s # t # ts) @ LF # rest)
      = read_text \<lparr>state = START_FIELD, field = [], parsed = ps @ [s]\<rparr>
          (join_fields (t # ts) @ LF # rest)"
    using read_field_comma [of st s "join_fields (t # ts) @ LF # rest" ps] "3.prems" by auto
  also have "\<dots> = (let (rows, ending) = read_text parse_reset rest
                    in (((ps @ [s]) @ t # ts) # rows, ending))"
    using "3.prems" by (intro "3.IH") simp_all
  finally show ?case by simp
qed

definition row_text :: "string list \<Rightarrow> string" where
  "row_text row = (if row = [[]] then [CHR 0x22, CHR 0x22] else join_fields row)"

lemma read_row:
  assumes "list_all (\<lambda>s. length s \<le> field_limit) row"
  shows "read_text parse_reset (row_text row @ LF # rest)
           = (let (rows, ending) = read_text parse_reset rest in (row # rows, ending))"
proof -
  consider (empty) "row = []" | (blank) "row = [[]]" | (fields) "row \<noteq> []" "row \<noteq> [[]]"
    by blast
  then show ?thesis
  proof cases
    case empty
    then show ?thesis
      by (simp add: row_text_def read_text_LF parse_reset_def parse_process_char_def)
  next
    case blank
    then show ?thesis
      by (simp add: row_text_def read_text_LF read_text_char parse_reset_def
          parse_process_char_def start_field_def end_of_line_def after_line_def
          parse_save_field_def)
  next
    case fields
    then show ?thesis
      using read_fields [OF assms, of START_RECORD "[]" rest]
      by (simp add: row_text_def parse_reset_def)
  qed
qed

lemma read_rows_text:
  assumes "list_all (list_all (\<lambda>s. length s \<le> field_limit)) rows"
  shows "read_text parse_reset (concat (map (\<lambda>row. row_text row @ [LF]) rows)) = (rows, None)"
  using assms
proof (induction rows)
  case Nil
  then show ?case by (simp add: read_text_Nil)
next
  case (Cons row rows)
  then show ?case
    using read_row [of row "concat (map (\<lambda>row. row_text row @ [LF]) rows)"] by simp
qed


lemma universal_newlines_Cons:
  "CR \<noteq> c \<Longrightarrow> universal_newlines (c # x) = c # universal_newlines x"
  by (cases x) auto

lemma universal_newlines_row:
  "CR \<notin> set a \<Longrightarrow> universal_newlines (a @ CR # LF # b) = a @ LF # universal_newlines b"
  by (induction a) (simp_all add: universal_newlines_Cons)

lemma set_double_quotes: "set (double_quotes s) = set s"
  by (induction s) (auto simp: double_quotes_simps)

lemma set_join_append: "set (join_append s) \<subseteq> insert (CHR 0x22) (set s)"
  by (auto simp: join_append_def set_double_quotes)

lemma set_join_fields:
  "set (join_fields row) \<subseteq> {CHR 0x22, CHR '',''} \<union> (\<Union>s \<in> set row. set s)"
  using set_join_append by (induction row rule: join_fields.induct) fastforce+

lemma row_text_no_CR:
  assumes "list_all (\<lambda>s. CR \<notin> set s) row"
  shows "CR \<notin> set (row_text row)"
proof
  assume "CR \<in> set (row_text row)"
  then have "CR \<in> set (join_fields row)"
    by (auto simp: row_text_def split: if_splits)
  with set_join_fields [of row] assms show False
    by (auto simp: list_all_iff)
qed

lemma writerow_row_text: "writerow row = row_text row @ [CR, LF]"
  by (simp add: writerow_def row_text_def)

lemma universal_newlines_rows:
  assumes "list_all (list_all (\<lambda>s. CR \<notin> set s)) rows"
  shows "universal_newlines (concat (map writerow rows))
           = concat (map (\<lambda>row. row_text row @ [LF]) rows)"
  using assms
proof (induction rows)
  case Nil
  then show ?case by simp
next
  case (Cons row rows)
  then have "CR \<notin> set (row_text row)" by (simp add: row_text_no_CR)
  then have "universal_newlines (row_text row @ CR # LF # concat (map writerow rows))
      = row_text row @ LF # universal_newlines (concat (map writerow rows))"
    by (rule universal_newlines_row)
  moreover have "concat (map writerow (row # rows))
      = row_text row @ CR # LF # concat (map writerow rows)"
    by (simp add: writerow_row_text)
  ultimately show ?case using Cons by simp
qed

definition plain :: "string \<Rightarrow> bool" where
  \<comment> \<open>a string that the file keeps: no carriage return, which reading in text mode turns
      into a line feed; no NUL, which the reader refuses before Python 3.11; and not longer
      than the reader's field limit\<close>
  "plain s = (CR \<notin> set s \<and> CHR 0x00 \<notin> set s \<and> length s \<le> field_limit)"

lemma csv_reader_writerows:
  assumes "list_all (list_all plain) rows"
  shows "csv_reader (concat (map writerow rows)) = (rows, None)"
proof -
  have "list_all (list_all (\<lambda>s. CR \<notin> set s)) rows"
    "list_all (list_all (\<lambda>s. length s \<le> field_limit)) rows"
    using assms by (auto simp: list_all_iff plain_def)
  then show ?thesis
    using read_rows_text [of rows]
    by (simp add: csv_reader_def universal_newlines_rows read_text_def)
qed

subsection \<open>Loading what was saved\<close>

definition not_header :: "string \<Rightarrow> bool" where
  "not_header p = (p \<noteq> ''SUMMARY'' \<and> p \<noteq> ''PLATFORMS'' \<and> p \<noteq> ''SECTIONS'')"

lemma header_of_data: "not_header p \<Longrightarrow> header_of (p # fs) = None"
  by (simp add: header_of_def not_header_def)

definition counts_only :: "bucket \<Rightarrow> bucket" where
  "counts_only b = \<lparr>passed = passed b, failed = failed b, error = error b, sections = []\<rparr>"

definition without_sections :: "string \<times> platform_data \<Rightarrow> string \<times> platform_data" where
  "without_sections kv =
     (case kv of (p, pd) \<Rightarrow> (p, \<lparr>single = counts_only (single pd), stack = counts_only (stack pd)\<rparr>))"

lemma update_platform_new:
  "p \<notin> fst ` set ps \<Longrightarrow> update_platform p f ps = ps @ [(p, f empty_platform)]"
  by (induction ps) auto

lemma update_platform_mid:
  "p \<notin> fst ` set pre \<Longrightarrow> update_platform p f (pre @ (p, v) # post) = pre @ (p, f v) # post"
  by (induction pre) auto

lemma set_count_new: "k \<notin> fst ` set kvs \<Longrightarrow> set_count k n kvs = kvs @ [(k, n)]"
  by (induction kvs) auto

lemma load_platform_rows:
  assumes "distinct (map fst (done @ ps))" and "list_all (\<lambda>kv. not_header (fst kv)) ps"
  shows "load_rows (bd\<lparr>platforms := done\<rparr>) (Some Platforms)
           (concat (map platform_rows ps) @ rest) ending
         = load_rows (bd\<lparr>platforms := done @ map without_sections ps\<rparr>) (Some Platforms)
             rest ending"
  using assms
proof (induction ps arbitrary: "done")
  case Nil
  then show ?case by simp
next
  case (Cons kv ps)
  obtain p pd where kv: "kv = (p, pd)" by (cases kv)
  have p: "p \<notin> fst ` set done" "not_header p"
    using Cons.prems by (auto simp: kv)
  have step: "load_rows (bd\<lparr>platforms := done\<rparr>) (Some Platforms)
           (platform_rows (p, pd) @ concat (map platform_rows ps) @ rest) ending
      = load_rows (bd\<lparr>platforms := done @ [without_sections (p, pd)]\<rparr>) (Some Platforms)
           (concat (map platform_rows ps) @ rest) ending"
    using p
    by (simp add: platform_rows_def header_of_data platform_row_def py_int_str_int
        known_device_def on_bucket_def update_platform_new update_platform_mid [where post = "[]", simplified]
        update_device_def empty_platform_def empty_bucket_def without_sections_def
        counts_only_def)
  have "distinct (map fst ((done @ [without_sections (p, pd)]) @ ps))"
    using Cons.prems(1) by (simp add: kv without_sections_def)
  then show ?case
    using Cons.IH [of "done @ [without_sections (p, pd)]"] Cons.prems(2) step
    by (simp add: kv)
qed


lemma restore_sections: "(counts_only b)\<lparr>sections := sections b\<rparr> = b"
  by (simp add: counts_only_def)


definition device_bucket :: "string \<Rightarrow> platform_data \<Rightarrow> bucket" where
  "device_bucket dt pd = (if dt = ''single'' then single pd else stack pd)"

definition positive_sections :: "bucket \<Rightarrow> bool" where
  "positive_sections b = list_all (\<lambda>kv. 0 < snd kv) (sections b)"

lemma load_section_rows_bucket:
  assumes "p \<notin> fst ` set pre" and "not_header p" and "known_device dt"
    and "distinct (map fst (sections (device_bucket dt pd0) @ secs))"
    and "list_all (\<lambda>kv. 0 < snd kv) secs"
  shows "load_rows (bd\<lparr>platforms := pre @ (p, pd0) # post\<rparr>) (Some Sections)
           ([[p, dt, s, str_int n]. (s, n) \<leftarrow> secs, n > 0] @ rest) ending
         = load_rows
             (bd\<lparr>platforms :=
                  pre @ (p, update_device dt (\<lambda>b. b\<lparr>sections := sections b @ secs\<rparr>) pd0)
                  # post\<rparr>)
             (Some Sections) rest ending"
  using assms(4,5)
proof (induction secs arbitrary: pd0)
  case Nil
  have "update_device dt (\<lambda>b. b\<lparr>sections := sections b @ []\<rparr>) pd0 = pd0"
    by (simp add: update_device_def)
  then show ?case by simp
next
  case (Cons kv secs)
  obtain s n where kv: "kv = (s, n)" by (cases kv)
  let ?g = "\<lambda>b :: bucket. b\<lparr>sections := sections b @ [(s, n)]\<rparr>"
  let ?pd1 = "update_device dt ?g pd0"
  have n: "0 < n" and s: "s \<notin> fst ` set (sections (device_bucket dt pd0))"
    using Cons.prems by (auto simp: kv)
  have set: "update_device dt (\<lambda>b. b\<lparr>sections := set_count s n (sections b)\<rparr>) pd0 = ?pd1"
    using s assms(3)
    by (auto simp: update_device_def device_bucket_def known_device_def set_count_new)
  have step: "load_rows (bd\<lparr>platforms := pre @ (p, pd0) # post\<rparr>) (Some Sections)
           ([p, dt, s, str_int n] # [[p, dt, s, str_int n]. (s, n) \<leftarrow> secs, n > 0] @ rest) ending
      = load_rows (bd\<lparr>platforms := pre @ (p, ?pd1) # post\<rparr>) (Some Sections)
           ([[p, dt, s, str_int n]. (s, n) \<leftarrow> secs, n > 0] @ rest) ending"
    using assms(1,2,3)
    by (simp add: header_of_data section_row_def py_int_str_int on_bucket_def
        update_platform_mid set)
  have "sections (device_bucket dt ?pd1) = sections (device_bucket dt pd0) @ [(s, n)]"
    using assms(3) by (auto simp: update_device_def device_bucket_def known_device_def)
  then have d: "distinct (map fst (sections (device_bucket dt ?pd1) @ secs))"
    using Cons.prems(1) by (simp add: kv)
  have comp: "update_device dt (\<lambda>b. b\<lparr>sections := sections b @ secs\<rparr>) ?pd1
      = update_device dt (\<lambda>b. b\<lparr>sections := sections b @ (s, n) # secs\<rparr>) pd0"
    by (simp add: update_device_def)
  show ?case
    using Cons.IH [OF d, of ] Cons.prems(2) step n
    by (simp add: kv comp)
qed


definition sections_ok :: "bucket \<Rightarrow> bool" where
  "sections_ok b = (distinct (map fst (sections b)) \<and> positive_sections b)"

definition platform_ok :: "string \<times> platform_data \<Rightarrow> bool" where
  "platform_ok kv =
     (case kv of (p, pd) \<Rightarrow> not_header p \<and> sections_ok (single pd) \<and> sections_ok (stack pd))"

lemma load_section_rows_platform:
  assumes "p \<notin> fst ` set pre" and "platform_ok (p, pd)"
  shows "load_rows (bd\<lparr>platforms := pre @ without_sections (p, pd) # post\<rparr>) (Some Sections)
           (section_rows (p, pd) @ rest) ending
         = load_rows (bd\<lparr>platforms := pre @ (p, pd) # post\<rparr>) (Some Sections) rest ending"
proof -
  let ?pd0 = "\<lparr>single = counts_only (single pd), stack = counts_only (stack pd)\<rparr>"
  let ?pd1 = "update_device ''single''
                (\<lambda>b. b\<lparr>sections := sections b @ sections (single pd)\<rparr>) ?pd0"
  let ?pd2 = "update_device ''stack''
                (\<lambda>b. b\<lparr>sections := sections b @ sections (stack pd)\<rparr>) ?pd1"
  have ok: "not_header p" "distinct (map fst (sections (single pd)))"
    "distinct (map fst (sections (stack pd)))"
    "list_all (\<lambda>kv. 0 < snd kv) (sections (single pd))"
    "list_all (\<lambda>kv. 0 < snd kv) (sections (stack pd))"
    using assms(2) by (simp_all add: platform_ok_def sections_ok_def positive_sections_def)
  have d1: "distinct (map fst (sections (device_bucket ''single'' ?pd0) @ sections (single pd)))"
    using ok(2) by (simp add: device_bucket_def counts_only_def)
  have d2: "distinct (map fst (sections (device_bucket ''stack'' ?pd1) @ sections (stack pd)))"
    using ok(3) by (simp add: device_bucket_def counts_only_def update_device_def)
  have "load_rows (bd\<lparr>platforms := pre @ (p, ?pd0) # post\<rparr>) (Some Sections)
           (section_rows (p, pd) @ rest) ending
      = load_rows (bd\<lparr>platforms := pre @ (p, ?pd1) # post\<rparr>) (Some Sections)
           ([[p, ''stack'', s, str_int n]. (s, n) \<leftarrow> sections (stack pd), n > 0] @ rest) ending"
    using load_section_rows_bucket [OF assms(1) ok(1) _ d1 ok(4), where bd = bd
        and post = post and ending = ending and rest
          = "[[p, ''stack'', s, str_int n]. (s, n) \<leftarrow> sections (stack pd), n > 0] @ rest"]
    by (simp add: section_rows_def bucket_section_rows_def known_device_def)
  also have "\<dots> = load_rows (bd\<lparr>platforms := pre @ (p, ?pd2) # post\<rparr>) (Some Sections)
           rest ending"
    using load_section_rows_bucket [OF assms(1) ok(1) _ d2 ok(5), where bd = bd
        and post = post and ending = ending and rest = rest]
    by (simp add: known_device_def)
  also have "?pd2 = pd"
    by (simp add: update_device_def counts_only_def)
  finally show ?thesis by (simp add: without_sections_def)
qed

lemma load_section_rows:
  assumes "distinct (map fst (pre @ ps))" and "list_all platform_ok ps"
  shows "load_rows (bd\<lparr>platforms := pre @ map without_sections ps\<rparr>) (Some Sections)
           (concat (map section_rows ps) @ rest) ending
         = load_rows (bd\<lparr>platforms := pre @ ps\<rparr>) (Some Sections) rest ending"
  using assms
proof (induction ps arbitrary: pre)
  case Nil
  then show ?case by simp
next
  case (Cons kv ps)
  obtain p pd where kv: "kv = (p, pd)" by (cases kv)
  have p: "p \<notin> fst ` set pre" "platform_ok (p, pd)"
    using Cons.prems by (auto simp: kv)
  have "distinct (map fst ((pre @ [(p, pd)]) @ ps))"
    using Cons.prems(1) by (simp add: kv)
  then show ?case
    using load_section_rows_platform [OF p, where bd = bd
        and post = "map without_sections ps" and ending = ending
        and rest = "concat (map section_rows ps) @ rest"]
      Cons.IH [of "pre @ [(p, pd)]"] Cons.prems(2)
    by (simp add: kv)
qed


lemma overall_counts_eta:
  "\<lparr>passed = passed c, failed = failed c, error = error c, blocked = blocked c,
    retest = retest c, skipped = skipped c\<rparr> = (c :: overall_counts)"
  by (cases c) simp

lemma load_build_rows:
  assumes "distinct (map fst (platforms bd))" and "list_all platform_ok (platforms bd)"
  shows "load_rows empty_build_data None (build_rows n d bd) None
           = Inr (bd\<lparr>name := Some n, date := Some d\<rparr>)"
proof -
  define bd0 where
    "bd0 = \<lparr>name = Some n, date = Some d, overall = overall bd, platforms = []\<rparr>"
  define tail where
    "tail = [[], [''SECTIONS''], [''platform'', ''device_type'', ''section'', ''count'']]
            @ concat (map section_rows (platforms bd))"
  have not_headers: "list_all (\<lambda>kv. not_header (fst kv)) (platforms bd)"
    using assms(2) by (auto simp: list_all_iff platform_ok_def)
  have "load_rows empty_build_data None (build_rows n d bd) None
      = load_rows (bd0\<lparr>platforms := []\<rparr>) (Some Platforms)
          (concat (map platform_rows (platforms bd)) @ tail) None"
    by (simp add: build_rows_def empty_build_data_def header_of_def summary_row_def
        set_metric_def py_int_str_int zero_counts_def bd0_def tail_def overall_counts_eta)
  also have "\<dots> = load_rows (bd0\<lparr>platforms := [] @ map without_sections (platforms bd)\<rparr>)
          (Some Platforms) tail None"
    using assms(1) not_headers by (intro load_platform_rows) simp_all
  also have "\<dots> = load_rows (bd0\<lparr>platforms := [] @ map without_sections (platforms bd)\<rparr>)
          (Some Sections) (concat (map section_rows (platforms bd)) @ []) None"
    by (simp add: tail_def header_of_def)
  also have "\<dots> = load_rows (bd0\<lparr>platforms := [] @ platforms bd\<rparr>) (Some Sections) [] None"
    using assms by (intro load_section_rows) simp_all
  also have "\<dots> = Inr (bd\<lparr>name := Some n, date := Some d\<rparr>)"
    by (simp add: bd0_def)
  finally show ?thesis .
qed


definition small_count :: "int \<Rightarrow> bool" where
  \<comment> \<open>a count that Python converts to a string and back\<close>
  "small_count c = (length (str_int c) \<le> 4300)"

definition bucket_storable :: "bucket \<Rightarrow> bool" where
  "bucket_storable b =
     (small_count (passed b) \<and> small_count (failed b) \<and> small_count (error b)
      \<and> distinct (map fst (sections b))
      \<and> list_all (\<lambda>kv. plain (fst kv) \<and> 0 < snd kv \<and> small_count (snd kv)) (sections b))"

definition platform_storable :: "string \<times> platform_data \<Rightarrow> bool" where
  "platform_storable kv =
     (plain (fst kv) \<and> not_header (fst kv) \<and> bucket_storable (single (snd kv))
      \<and> bucket_storable (stack (snd kv)))"

definition storable :: "build_data \<Rightarrow> bool" where
  "storable bd =
     (name bd \<noteq> None \<and> date bd \<noteq> None \<and> plain (the (name bd)) \<and> plain (the (date bd))
      \<and> small_count (passed (overall bd)) \<and> small_count (failed (overall bd))
      \<and> small_count (error (overall bd)) \<and> small_count (blocked (overall bd))
      \<and> small_count (retest (overall bd)) \<and> small_count (skipped (overall bd))
      \<and> distinct (map fst (platforms bd)) \<and> list_all platform_storable (platforms bd))"

lemma plain_str_int: "small_count c \<Longrightarrow> plain (str_int c)"
proof -
  assume "small_count c"
  then have "length (str_int c) \<le> field_limit"
    by (simp add: small_count_def field_limit_def)
  moreover have "CR \<notin> set (str_int c)"
  proof
    assume "CR \<in> set (str_int c)"
    from str_int_chars [OF this] show False by (simp add: CR_def is_digit_def)
  qed
  moreover have "CHR 0x00 \<notin> set (str_int c)"
  proof
    assume "CHR 0x00 \<in> set (str_int c)"
    from str_int_chars [OF this] show False by (simp add: is_digit_def)
  qed
  ultimately show ?thesis by (simp add: plain_def)
qed

lemma plain_words:
  "plain ''SUMMARY''" "plain ''metric''" "plain ''value''" "plain ''name''" "plain ''date''"
  "plain ''passed''" "plain ''failed''" "plain ''error''" "plain ''blocked''"
  "plain ''retest''" "plain ''skipped''" "plain ''PLATFORMS''" "plain ''platform''"
  "plain ''device_type''" "plain ''SECTIONS''" "plain ''section''" "plain ''count''"
  "plain ''single''" "plain ''stack''"
  by (simp_all add: plain_def CR_def field_limit_def)

lemma plain_platform_rows:
  "platform_storable kv \<Longrightarrow> list_all (list_all plain) (platform_rows kv)"
  by (cases kv)
     (simp add: platform_storable_def bucket_storable_def platform_rows_def plain_words
       plain_str_int)

lemma plain_bucket_section_rows:
  assumes "plain p" "plain dt" "bucket_storable b"
  shows "list_all (list_all plain) (bucket_section_rows p dt b)"
proof -
  have "plain s \<and> plain (str_int n)" if "(s, n) \<in> set (sections b)" for s n
    using that assms(3) plain_str_int by (fastforce simp: bucket_storable_def list_all_iff)
  then show ?thesis
    using assms(1,2) by (auto simp: bucket_section_rows_def list_all_iff)
qed

lemma plain_section_rows:
  "platform_storable kv \<Longrightarrow> list_all (list_all plain) (section_rows kv)"
  by (cases kv)
     (simp add: platform_storable_def section_rows_def plain_bucket_section_rows plain_words)

lemma plain_build_rows:
  assumes "storable bd"
  shows "list_all (list_all plain) (build_rows (the (name bd)) (the (date bd)) bd)"
proof -
  have "list_all (list_all plain) (concat (map platform_rows (platforms bd)))"
    "list_all (list_all plain) (concat (map section_rows (platforms bd)))"
    using assms plain_platform_rows plain_section_rows
    by (auto simp: storable_def list_all_iff)
  then show ?thesis
    using assms by (simp add: build_rows_def storable_def plain_words plain_str_int)
qed

lemma storable_platform_ok: "platform_storable kv \<Longrightarrow> platform_ok kv"
  by (cases kv)
     (auto simp: platform_storable_def platform_ok_def bucket_storable_def sections_ok_def
       positive_sections_def list_all_iff)

lemma load_legacy_row:
  assumes "not_header p" and "known_device dt"
  shows "load_rows bd (Some Platforms) ([p, dt, str_int a, str_int f] # rest) ending
           = load_rows (on_bucket p dt (\<lambda>b. b\<lparr>passed := a, failed := f, error := 0\<rparr>) bd)
               (Some Platforms) rest ending"
  using assms by (simp add: header_of_data platform_row_def py_int_str_int)

definition zero_section_build :: build_data where
  "zero_section_build =
     \<lparr>name = Some ''b1'', date = Some ''2025-06-02'',
      overall = \<lparr>passed = 1, failed = 0, error = 0, blocked = 0, retest = 0, skipped = 0\<rparr>,
      platforms =
        [(''C9300'',
          \<lparr>single = \<lparr>passed = 1, failed = 0, error = 0, sections = [(''Routing'', 0)]\<rparr>,
           stack = \<lparr>passed = 0, failed = 0, error = 0, sections = []\<rparr>\<rparr>)]\<rparr>"

definition sample_build :: build_data where
  "sample_build =
     \<lparr>name = Some ''cs-17-2-202506022349-G9b920b73c087-rel-bricklaying'',
      date = Some ''2025-06-02'',
      overall = \<lparr>passed = 120, failed = 4, error = 2, blocked = 0, retest = 1, skipped = 7\<rparr>,
      platforms =
        [(''C9300'',
          \<lparr>single = \<lparr>passed = 4, failed = 4, error = 2,
               sections = [(''Routing, L3 \"core\"'', 3), ([CHR ''a'', LF, CHR ''b''], 2)]\<rparr>,
           stack = \<lparr>passed = 0, failed = 0, error = 0, sections = []\<rparr>\<rparr>)]\<rparr>"

definition legacy_rows :: "string list list" where
  "legacy_rows =
     [[''PLATFORMS''], [''platform'', ''device_type'', ''passed'', ''failed''],
      [''MS120'', ''stack'', ''5'', ''6'']]"

lemma str_int_examples:
  "str_int 0 = ''0''" "str_int 1 = ''1''" "str_int 2 = ''2''" "str_int 3 = ''3''"
  "str_int 4 = ''4''" "str_int 5 = ''5''" "str_int 6 = ''6''" "str_int 7 = ''7''"
  "str_int 120 = ''120''"
  by (simp_all add: str_int_def digits_of_nat.simps)

lemma carriage_return_is_rewritten:
  "csv_reader (writerow [[CHR ''a'', CR, CHR ''b'']]) = ([[[CHR ''a'', LF, CHR ''b'']]], None)"
  by (simp add: csv_reader_def writerow_def join_append_def needs_quotes_def
      double_quotes_def parse_reset_def parse_process_char_def start_field_def
      end_of_line_def after_line_def parse_add_char_def parse_save_field_def field_limit_def
      CR_def LF_def
      cong: sum.case_cong_weak option.case_cong_weak list.case_cong_weak
        parser_state.case_cong_weak prod.case_cong_weak)

text \<open>
  C1 as stated: every record with non-negative counts is read back as it was written. It
  fails for a record in which a section has the count 0: \<open>save_build_data_to_csv\<close> writes
  a section row only \<open>if count > 0\<close>, and the record that \<open>load_build_data_from_csv\<close>
  returns has no such section.
\<close>

theorem zero_count_section_is_lost:
  "save_build_data_to_csv zero_section_build
     = Inr (concat (map writerow (build_rows ''b1'' ''2025-06-02'' zero_section_build)))
   \<and> load_build_data_from_csv
        (concat (map writerow (build_rows ''b1'' ''2025-06-02'' zero_section_build)))
     = Inr (zero_section_build
             \<lparr>platforms :=
                [(''C9300'',
                  \<lparr>single = \<lparr>passed = 1, failed = 0, error = 0, sections = []\<rparr>,
                   stack = \<lparr>passed = 0, failed = 0, error = 0, sections = []\<rparr>\<rparr>)]\<rparr>)
   \<and> load_build_data_from_csv
        (concat (map writerow (build_rows ''b1'' ''2025-06-02'' zero_section_build)))
     \<noteq> Inr zero_section_build"
proof -
  let ?rows = "build_rows ''b1'' ''2025-06-02'' zero_section_build"
  have rows: "?rows =
     [[''SUMMARY''], [''metric'', ''value''], [''name'', ''b1''], [''date'', ''2025-06-02''],
      [''passed'', ''1''], [''failed'', ''0''], [''error'', ''0''], [''blocked'', ''0''],
      [''retest'', ''0''], [''skipped'', ''0''], [],
      [''PLATFORMS''], [''platform'', ''device_type'', ''passed'', ''failed'', ''error''],
      [''C9300'', ''single'', ''1'', ''0'', ''0''], [''C9300'', ''stack'', ''0'', ''0'', ''0''],
      [], [''SECTIONS''], [''platform'', ''device_type'', ''section'', ''count'']]"
    by (simp add: build_rows_def zero_section_build_def platform_rows_def section_rows_def
        bucket_section_rows_def str_int_examples)
  have "list_all (list_all plain) ?rows"
    unfolding rows by (simp add: plain_def CR_def field_limit_def)
  then have read: "csv_reader (concat (map writerow ?rows)) = (?rows, None)"
    by (rule csv_reader_writerows)
  have ints: "py_int ''0'' = Inr 0" "py_int ''1'' = Inr 1"
    using py_int_str_int [of 0] py_int_str_int [of 1] by (simp_all add: str_int_examples)
  have "load_rows empty_build_data None ?rows None
     = Inr (zero_section_build
             \<lparr>platforms :=
                [(''C9300'',
                  \<lparr>single = \<lparr>passed = 1, failed = 0, error = 0, sections = []\<rparr>,
                   stack = \<lparr>passed = 0, failed = 0, error = 0, sections = []\<rparr>\<rparr>)]\<rparr>)"
    unfolding rows
    by (simp add: empty_build_data_def zero_section_build_def header_of_def summary_row_def
        set_metric_def platform_row_def known_device_def on_bucket_def update_device_def
        empty_platform_def empty_bucket_def zero_counts_def ints)
  then show ?thesis
    by (simp add: load_build_data_from_csv_def read save_build_data_to_csv_def)
       (simp add: zero_section_build_def)
qed

text \<open>
  C1 as amended: let a record have a name and a date, platform identifiers that are distinct
  and none of the words \<open>SUMMARY\<close>, \<open>PLATFORMS\<close>, \<open>SECTIONS\<close>, section labels that are
  distinct within a bucket, and section counts that are all positive; let its strings hold
  no carriage return and no NUL and be at most 131072 characters long, and its counts have at
  most 4300 decimal digits. Then saving the record gives a file, and loading that file gives
  the record back; commas, quotes and line feeds in names and labels are kept. And in the
  \<open>PLATFORMS\<close> section a row of four fields (platform, device type, passed, failed) sets
  the passed and failed counts of the bucket and its error count to 0.
\<close>

theorem cache_round_trip:
  assumes "storable bd" and "not_header p" and "known_device dt"
  shows "save_build_data_to_csv bd
           = Inr (concat (map writerow (build_rows (the (name bd)) (the (date bd)) bd)))
         \<and> load_build_data_from_csv
             (concat (map writerow (build_rows (the (name bd)) (the (date bd)) bd)))
           = Inr bd
         \<and> load_rows bd' (Some Platforms) ([p, dt, str_int a, str_int f] # rest) ending
           = load_rows (on_bucket p dt (\<lambda>b. b\<lparr>passed := a, failed := f, error := 0\<rparr>) bd')
               (Some Platforms) rest ending"
proof -
  obtain n d where nd: "name bd = Some n" "date bd = Some d"
    using assms(1) by (auto simp: storable_def)
  have ok: "distinct (map fst (platforms bd))" "list_all platform_ok (platforms bd)"
    using assms(1) storable_platform_ok by (auto simp: storable_def list_all_iff)
  have "csv_reader (concat (map writerow (build_rows n d bd))) = (build_rows n d bd, None)"
    using plain_build_rows [OF assms(1)] by (intro csv_reader_writerows) (simp add: nd)
  moreover have "bd\<lparr>name := Some n, date := Some d\<rparr> = bd"
    using nd by (cases bd) simp
  ultimately show ?thesis
    using load_build_rows [OF ok, of n d] load_legacy_row [OF assms(2,3)]
    by (simp add: save_build_data_to_csv_def load_build_data_from_csv_def nd)
qed

theorem cache_round_trip_witness:
  "load_build_data_from_csv
     (concat (map writerow
        (build_rows ''cs-17-2-202506022349-G9b920b73c087-rel-bricklaying'' ''2025-06-02''
           sample_build)))
     = Inr sample_build
   \<and> load_build_data_from_csv (concat (map writerow legacy_rows))
     = Inr (empty_build_data
             \<lparr>platforms :=
                [(''MS120'',
                  \<lparr>single = \<lparr>passed = 0, failed = 0, error = 0, sections = []\<rparr>,
                   stack = \<lparr>passed = 5, failed = 6, error = 0, sections = []\<rparr>\<rparr>)]\<rparr>)"
proof -
  have small: "small_count 0" "small_count 1" "small_count 2" "small_count 3"
    "small_count 4" "small_count 7" "small_count 120"
    by (simp_all add: small_count_def str_int_examples)
  have "storable sample_build"
    by (simp add: storable_def sample_build_def platform_storable_def bucket_storable_def
        small plain_def CR_def LF_def field_limit_def not_header_def)
  moreover have "not_header ''MS120''" "known_device ''stack''"
    by (simp_all add: not_header_def known_device_def)
  ultimately have round:
    "load_build_data_from_csv
       (concat (map writerow
          (build_rows (the (name sample_build)) (the (date sample_build)) sample_build)))
       = Inr sample_build"
    and legacy:
    "load_rows empty_build_data (Some Platforms)
       ([''MS120'', ''stack'', str_int 5, str_int 6] # []) None
       = load_rows
           (on_bucket ''MS120'' ''stack'' (\<lambda>b. b\<lparr>passed := 5, failed := 6, error := 0\<rparr>)
              empty_build_data)
           (Some Platforms) [] None"
    using cache_round_trip [of sample_build "''MS120''" "''stack''" empty_build_data 5 6 "[]"
        None]
    by simp_all
  have "list_all (list_all plain) legacy_rows"
    by (simp add: legacy_rows_def plain_def CR_def field_limit_def)
  then have "csv_reader (concat (map writerow legacy_rows)) = (legacy_rows, None)"
    by (rule csv_reader_writerows)
  then have "load_build_data_from_csv (concat (map writerow legacy_rows))
      = load_rows empty_build_data (Some Platforms)
          ([''MS120'', ''stack'', str_int 5, str_int 6] # []) None"
    by (simp add: load_build_data_from_csv_def legacy_rows_def header_of_def
        str_int_examples)
  with legacy round show ?thesis
    by (simp add: sample_build_def on_bucket_def update_device_def empty_build_data_def
        empty_platform_def empty_bucket_def)
qed

end
